theory Spec2Isabelle
  imports Main "HOL-Library.Char_ord" "HOL-Library.List_Lexorder"
begin

section \<open>The npm package component of projen (src/npm-package.ts, src/node-project.ts)\<close>

text \<open>
  The development embeds the dependency handling, the keyword set, the scripts and the
  task-invocation rendering of \<^verbatim>\<open>NpmPackage\<close> and \<^verbatim>\<open>NodeProject\<close>. JavaScript strings are
  \<^typ>\<open>string\<close>; a thrown \<^verbatim>\<open>Error\<close> is a value of \<open>error\<close> on the left of a sum;
  mutation of \<^verbatim>\<open>this\<close> is explicit state passing on a record.
\<close>

subsection \<open>Errors\<close>

text \<open>
  The source throws plain \<^verbatim>\<open>Error\<close> objects that differ in their message only. Each
  throw site gets its own constructor, named after the specification's taxonomy; the
  payload is the data interpolated into the message.
  \<^item> \<open>ResolutionError n v\<close>: "unable to determine minimum semver for peer dependency n@v"
  \<^item> \<open>ConflictError n\<close>: "unable to bundle n. it cannot appear as a peer dependency"
  \<^item> \<open>ConfigurationError m\<close>: "invalid npmTaskExecution mode: m"
  \<^item> \<open>AppProjectError\<close>: "cannot add peer/bundled dependencies to an APP project"
  \<^item> \<open>AssertionFailed\<close>: "assertion failed"
  \<^item> \<open>UnexpectedPackageManager p\<close>: "unexpected package manager p"
  \<^item> \<open>TypeError\<close>: raised by the runtime for \<^verbatim>\<open>Object.keys(undefined)\<close>
  \<^item> \<open>SemverTypeError r\<close>: the \<^verbatim>\<open>TypeError\<close> that \<^verbatim>\<open>semver.minVersion\<close> raises for a
    range \<open>r\<close> that it cannot parse ("Invalid comparator")
\<close>

datatype error =
    ResolutionError string string
  | ConflictError string
  | ConfigurationError string
  | AppProjectError
  | AssertionFailed
  | UnexpectedPackageManager string
  | TypeError
  | SemverTypeError string

subsection \<open>The dependency ledger\<close>

datatype DependencyType = RUNTIME | BUILD | PEER | BUNDLED | TEST | DEVENV

record Dependency =
  name :: string
  version :: "string option"
  type :: DependencyType

text \<open>
  Modelled from the spec: \<^verbatim>\<open>deps.ts\<close> (the class behind \<^verbatim>\<open>project.deps\<close>) is not among
  the sources. The specification (4.1) says that \<open>add(name, role)\<close> parses an optional
  inline version suffix with the pattern \<open><package>@<range>\<close>, where only the last \<open>@\<close>
  that is not the first character counts as the separator.
\<close>

definition parseDependency :: "string \<Rightarrow> string \<times> string option" where
  "parseDependency spec =
     (case spec of
        [] \<Rightarrow> ([], None)
      | c # rest \<Rightarrow>
          if CHR ''@'' \<in> set rest then
            (c # rev (tl (dropWhile (\<lambda>x. x \<noteq> CHR ''@'') (rev rest))),
             Some (rev (takeWhile (\<lambda>x. x \<noteq> CHR ''@'') (rev rest))))
          else (spec, None))"

text \<open>
  Modelled from the spec: \<^verbatim>\<open>deps.ts\<close> is not among the sources. The ledger stores at
  most one entry per \<open>(name, role)\<close>; adding the same name and role again overwrites the
  entry instead of duplicating it, and \<open>all()\<close> lists the entries in insertion order. The
  ledger is therefore the list of entries in insertion order, and \<open>upsert\<close> replaces the
  entry with the same key where it stands, or appends.
\<close>

fun upsert :: "Dependency list \<Rightarrow> Dependency \<Rightarrow> Dependency list" where
  "upsert [] d = [d]"
| "upsert (x # xs) d =
     (if name x = name d \<and> type x = type d then d # xs else x # upsert xs d)"

definition addDependency :: "Dependency list \<Rightarrow> string \<Rightarrow> DependencyType \<Rightarrow> Dependency list" where
  "addDependency ledger spec t =
     (case parseDependency spec of
        (n, v) \<Rightarrow> upsert ledger \<lparr>name = n, version = v, type = t\<rparr>)"

subsection \<open>JavaScript objects with string keys\<close>

text \<open>
  An object with string keys is the list of its entries in the order in which
  \<^verbatim>\<open>Object.entries\<close>, \<^verbatim>\<open>Object.keys\<close> and \<^verbatim>\<open>JSON.stringify\<close> enumerate them:
  first the keys that are array indices, ascending by their numeric value, then the
  other keys in the order in which they were first assigned.

  An array index is the canonical decimal numeral of an integer from 0 to \<open>2^32 - 2\<close>:
  digits only, no leading zero except for \<open>0\<close> itself. \<open>array_index k\<close> is the value of
  the key \<open>k\<close> when it is one; \<open>key_before k k'\<close> says that a new key \<open>k\<close> is enumerated
  before the key \<open>k'\<close> that the object already has.
\<close>

definition is_digit :: "char \<Rightarrow> bool" where
  "is_digit c = (c \<in> set ''0123456789'')"

definition digit_value :: "char \<Rightarrow> nat" where
  "digit_value c = of_char c - 48"

definition decimal :: "string \<Rightarrow> nat" where
  "decimal s = foldl (\<lambda>n c. 10 * n + digit_value c) 0 s"

definition array_index :: "string \<Rightarrow> nat option" where
  "array_index k =
     (if k \<noteq> [] \<and> list_all is_digit k \<and> (if hd k = CHR ''0'' then k = ''0'' else True)
         \<and> decimal k < 4294967295
      then Some (decimal k) else None)"

definition key_before :: "string \<Rightarrow> string \<Rightarrow> bool" where
  "key_before k k' =
     (case array_index k of
        None \<Rightarrow> False
      | Some i \<Rightarrow> (case array_index k' of None \<Rightarrow> True | Some j \<Rightarrow> i < j))"

text \<open>
  \<open>obj_set\<close> is the assignment \<^verbatim>\<open>o[k] = v\<close>. A key that the object has keeps its place
  (\<open>obj_update\<close>); a new key goes to its place in the enumeration (\<open>obj_insert\<close>): an
  array index before the first key that is a larger index or no index, any other key to
  the end. \<open>obj_get\<close> is the read \<^verbatim>\<open>o[k]\<close>, \<open>None\<close> for \<^verbatim>\<open>undefined\<close>.
\<close>

fun obj_insert :: "(string \<times> 'v) list \<Rightarrow> string \<Rightarrow> 'v \<Rightarrow> (string \<times> 'v) list" where
  "obj_insert [] k v = [(k, v)]"
| "obj_insert ((k', v') # kvs) k v =
     (if key_before k k' then (k, v) # (k', v') # kvs else (k', v') # obj_insert kvs k v)"

fun obj_update :: "(string \<times> 'v) list \<Rightarrow> string \<Rightarrow> 'v \<Rightarrow> (string \<times> 'v) list" where
  "obj_update [] k v = []"
| "obj_update ((k', v') # kvs) k v =
     (if k' = k then (k, v) # kvs else (k', v') # obj_update kvs k v)"

definition obj_set :: "(string \<times> 'v) list \<Rightarrow> string \<Rightarrow> 'v \<Rightarrow> (string \<times> 'v) list" where
  "obj_set ob k v = (if map_of ob k = None then obj_insert ob k v else obj_update ob k v)"

definition obj_get :: "(string \<times> 'v) list \<Rightarrow> string \<Rightarrow> 'v option" where
  "obj_get ob k = map_of ob k"

text \<open>A \<^verbatim>\<open>Record<string, string>\<close>.\<close>

type_synonym obj = "(string \<times> string) list"

subsection \<open>The component state\<close>

text \<open>
  \<^verbatim>\<open>tasks.ts\<close> is not among the sources. A task is a record of its name and of what
  the call \<^verbatim>\<open>task.toShellCommand()\<close> yields for it: the joined shell command of its
  steps, or the error the call raises.
\<close>

record Task =
  task_name :: string
  toShellCommand :: "error + string"

record NpmDependencies =
  dependencies :: obj
  devDependencies :: obj
  peerDependencies :: obj

text \<open>
  The fields of \<^verbatim>\<open>NpmPackage\<close> that the modelled methods read or write. \<open>deps\<close> is
  \<^verbatim>\<open>this.project.deps\<close>; \<open>pinnedDevDependency\<close> is the optional field of
  \<^verbatim>\<open>peerDependencyOptions\<close>; \<open>keywordSet\<close> is the private \<^verbatim>\<open>keywords: Set<string>\<close> in insertion order;
  the four \<open>manifest_\<close> fields are the dependency sections of \<^verbatim>\<open>this.manifest\<close>;
  \<open>scripts\<close> is the private object \<^verbatim>\<open>scripts: Record<string, string[]>\<close>; \<open>tasks\<close> is
  \<^verbatim>\<open>this.project.tasks.all\<close>, the tasks of the project in the order of the list.
  The execution mode and the package manager are kept as the strings they are at run
  time (\<^verbatim>\<open>'projen'\<close>, \<^verbatim>\<open>'shell'\<close>, \<^verbatim>\<open>'yarn'\<close>, \<^verbatim>\<open>'npm'\<close>), so that a value outside
  the enum is representable.
\<close>

record NpmPackage =
  npmTaskExecution :: string
  projenCommand :: string
  allowLibraryDependencies :: bool
  packageManager :: string
  pinnedDevDependency :: "bool option"
  keywordSet :: "string list"
  deps :: "Dependency list"
  manifest_dependencies :: obj
  manifest_devDependencies :: obj
  manifest_peerDependencies :: obj
  manifest_bundledDependencies :: "string list"
  renderedDeps :: "NpmDependencies option"
  scripts :: "(string \<times> string list) list"
  tasks :: "Task list"

subsection \<open>Declaring dependencies\<close>

definition addDeps :: "NpmPackage \<Rightarrow> string list \<Rightarrow> NpmPackage" where
  "addDeps st ds = st\<lparr>deps := foldl (\<lambda>l dep. addDependency l dep RUNTIME) (deps st) ds\<rparr>"

definition addDevDeps :: "NpmPackage \<Rightarrow> string list \<Rightarrow> NpmPackage" where
  "addDevDeps st ds = st\<lparr>deps := foldl (\<lambda>l dep. addDependency l dep BUILD) (deps st) ds\<rparr>"

definition addPeerDeps :: "NpmPackage \<Rightarrow> string list \<Rightarrow> error + NpmPackage" where
  "addPeerDeps st ds =
     (if length ds \<noteq> 0 \<and> \<not> allowLibraryDependencies st then Inl AppProjectError
      else Inr (st\<lparr>deps := foldl (\<lambda>l dep. addDependency l dep PEER) (deps st) ds\<rparr>))"

definition addBundledDeps :: "NpmPackage \<Rightarrow> string list \<Rightarrow> error + NpmPackage" where
  "addBundledDeps st ds =
     (if length ds \<noteq> 0 \<and> \<not> allowLibraryDependencies st then Inl AppProjectError
      else Inr (st\<lparr>deps := foldl (\<lambda>l dep. addDependency l dep BUNDLED) (deps st) ds\<rparr>))"

subsection \<open>Keywords\<close>

text \<open>\<^verbatim>\<open>Set.prototype.add\<close>: a member is not added again, a new one goes last.\<close>

definition set_add :: "string list \<Rightarrow> string \<Rightarrow> string list" where
  "set_add s k = (if k \<in> set s then s else s @ [k])"

definition addKeywords :: "NpmPackage \<Rightarrow> string list \<Rightarrow> NpmPackage" where
  "addKeywords st ks = st\<lparr>keywordSet := foldl set_add (keywordSet st) ks\<rparr>"

text \<open>
  \<^verbatim>\<open>manifest.keywords = () => Array.from(this.keywords).sort()\<close>. The default sort of
  JavaScript compares strings lexicographically by code unit, which is the order of
  \<^typ>\<open>string\<close> here.
\<close>

definition renderKeywords :: "NpmPackage \<Rightarrow> string list" where
  "renderKeywords st = sort (keywordSet st)"

subsection \<open>Truthiness and logging\<close>

text \<open>
  An optional string is falsy in JavaScript when it is \<^verbatim>\<open>undefined\<close> or empty.
\<close>

definition truthy :: "string option \<Rightarrow> bool" where
  "truthy v = (case v of None \<Rightarrow> False | Some s \<Rightarrow> s \<noteq> [])"

text \<open>The two channels of \<^verbatim>\<open>logging\<close> that the modelled code writes to.\<close>

datatype log = Warn string | Verbose string

fun is_warn :: "log \<Rightarrow> bool" where
  "is_warn (Warn m) = True"
| "is_warn (Verbose m) = False"

subsection \<open>Rendering the dependencies\<close>

text \<open>
  \<^verbatim>\<open>semver.minVersion\<close> belongs to a library, so it is a parameter \<open>minVersion\<close> of the
  model. For a range the library does one of three things: it raises a \<^verbatim>\<open>TypeError\<close>
  because it cannot parse the range (\<open>InvalidRange\<close>), it returns \<^verbatim>\<open>null\<close> because no
  version satisfies the range (\<open>NoMinimum\<close>), or it returns a \<^verbatim>\<open>SemVer\<close> object, of which
  the code reads the \<^verbatim>\<open>version\<close> string (\<open>MinVersion ver\<close>).
\<close>

datatype minVersion_result = InvalidRange | NoMinimum | MinVersion string

text \<open>
  \<open>pinnedRequest\<close> is the part of the body of the first loop of
  \<^verbatim>\<open>renderDependencies\<close> that computes \<^verbatim>\<open>req\<close> (an empty version is falsy, like a
  missing one). The call of \<^verbatim>\<open>semver.minVersion\<close> is not inside a \<^verbatim>\<open>try\<close>, so the
  error of the library leaves the method as it is; \<^verbatim>\<open>null?.version\<close> is
  \<^verbatim>\<open>undefined\<close>, for which the code throws its own error. \<open>pinPeers\<close> is the loop: it
  runs over the PEER entries that \<^verbatim>\<open>deps.all\<close> listed before the loop started, and every
  iteration calls \<^verbatim>\<open>addDevDeps(req)\<close> on the component.
\<close>

definition pinnedRequest :: "(string \<Rightarrow> minVersion_result) \<Rightarrow> Dependency \<Rightarrow> error + string" where
  "pinnedRequest minVersion dep =
     (case version dep of
        None \<Rightarrow> Inr (name dep)
      | Some v \<Rightarrow>
          if v = [] then Inr (name dep)
          else (case minVersion v of
                  InvalidRange \<Rightarrow> Inl (SemverTypeError v)
                | NoMinimum \<Rightarrow> Inl (ResolutionError (name dep) v)
                | MinVersion ver \<Rightarrow>
                    if ver = [] then Inl (ResolutionError (name dep) v)
                    else Inr (name dep @ ''@'' @ ver)))"

fun pinPeers :: "(string \<Rightarrow> minVersion_result) \<Rightarrow> Dependency list \<Rightarrow> NpmPackage \<Rightarrow> error + NpmPackage" where
  "pinPeers minVersion [] st = Inr st"
| "pinPeers minVersion (dep # rest) st =
     (case pinnedRequest minVersion dep of
        Inl e \<Rightarrow> Inl e
      | Inr req \<Rightarrow> pinPeers minVersion rest (addDevDeps st [req]))"

text \<open>\<^verbatim>\<open>dep.version ?? '*'\<close>: only a missing version is replaced.\<close>

definition versionOrStar :: "Dependency \<Rightarrow> string" where
  "versionOrStar dep = (case version dep of None \<Rightarrow> ''*'' | Some v \<Rightarrow> v)"

text \<open>
  \<open>fillBuckets\<close> is the second loop: \<open>all\<close> is \<^verbatim>\<open>this.project.deps.all\<close>, the second
  argument the entries still to visit, the accumulator the three objects and the bundled
  array under construction.
\<close>

fun fillBuckets :: "Dependency list \<Rightarrow> Dependency list \<Rightarrow> NpmDependencies \<times> string list
    \<Rightarrow> error + NpmDependencies \<times> string list" where
  "fillBuckets all [] acc = Inr acc"
| "fillBuckets all (dep # rest) (nd, bundled) =
     (let ver = versionOrStar dep in
      case type dep of
        BUNDLED \<Rightarrow>
          if List.find (\<lambda>d. name d = name dep \<and> type d = PEER) all \<noteq> None
          then Inl (ConflictError (name dep))
          else fillBuckets all rest
                 (nd\<lparr>dependencies := obj_set (dependencies nd) (name dep) ver\<rparr>,
                  bundled @ [name dep])
      | PEER \<Rightarrow>
          fillBuckets all rest
            (nd\<lparr>peerDependencies := obj_set (peerDependencies nd) (name dep) ver\<rparr>, bundled)
      | RUNTIME \<Rightarrow>
          fillBuckets all rest
            (nd\<lparr>dependencies := obj_set (dependencies nd) (name dep) ver\<rparr>, bundled)
      | TEST \<Rightarrow>
          fillBuckets all rest
            (nd\<lparr>devDependencies := obj_set (devDependencies nd) (name dep) ver\<rparr>, bundled)
      | DEVENV \<Rightarrow>
          fillBuckets all rest
            (nd\<lparr>devDependencies := obj_set (devDependencies nd) (name dep) ver\<rparr>, bundled)
      | BUILD \<Rightarrow>
          fillBuckets all rest
            (nd\<lparr>devDependencies := obj_set (devDependencies nd) (name dep) ver\<rparr>, bundled))"

text \<open>
  The dependency sections and the scripts of a \<^verbatim>\<open>package.json\<close> on disk; a section
  that the file does not have is \<^verbatim>\<open>undefined\<close>. A section that is read is the object
  that \<^verbatim>\<open>JSON.parse\<close> builds, a section that is written is enumerated by
  \<^verbatim>\<open>JSON.stringify\<close>, so both are lists of entries in enumeration order.
\<close>

record PackageJson =
  pkg_dependencies :: "obj option"
  pkg_devDependencies :: "obj option"
  pkg_peerDependencies :: "obj option"
  pkg_scripts :: "obj option"

text \<open>
  \<^verbatim>\<open>readDeps(user, current = {})\<close>: the first loop runs over the entries that \<open>user\<close>
  had when the loop started and assigns into \<open>user\<close>; the second loop reports removals.
  The result is the mutated \<open>user\<close> and the lines logged.
\<close>

definition readDeps_step :: "obj \<Rightarrow> obj \<Rightarrow> string \<times> string \<Rightarrow> obj" where
  "readDeps_step current user e =
     (case e of (n, userVersion) \<Rightarrow>
        if userVersion \<noteq> ''*'' \<or> \<not> truthy (obj_get current n) \<or> obj_get current n = Some ''*''
        then user
        else obj_set user n (the (obj_get current n)))"

definition readDeps :: "obj \<Rightarrow> obj option \<Rightarrow> obj \<times> log list" where
  "readDeps user current_opt =
     (let current = (case current_opt of None \<Rightarrow> [] | Some c \<Rightarrow> c);
          user' = foldl (readDeps_step current) user user
      in (user',
          map (\<lambda>n. Verbose (n @ '': removed''))
            (filter (\<lambda>n. \<not> truthy (obj_get user' n)) (map fst current))))"

text \<open>
  \<^verbatim>\<open>renderDependencies\<close>. \<open>pkgfile\<close> is the \<^verbatim>\<open>package.json\<close> of the output directory,
  \<open>None\<close> when the file does not exist. The objects assigned to the manifest are the very
  objects that \<^verbatim>\<open>readDeps\<close> mutates afterwards, so the manifest of the resulting state
  holds the reconciled sections. The result is the new state, the returned
  \<^verbatim>\<open>NpmDependencies\<close> and the lines logged.
\<close>

definition renderDependencies ::
    "(string \<Rightarrow> minVersion_result) \<Rightarrow> PackageJson option \<Rightarrow> NpmPackage
      \<Rightarrow> error + NpmPackage \<times> NpmDependencies \<times> log list" where
  "renderDependencies minVersion pkgfile st =
     (let pinned = (case pinnedDevDependency st of None \<Rightarrow> True | Some b \<Rightarrow> b) in
      case (if pinned
            then pinPeers minVersion (filter (\<lambda>d. type d = PEER) (deps st)) st
            else Inr st) of
        Inl e \<Rightarrow> Inl e
      | Inr st1 \<Rightarrow>
          (case fillBuckets (deps st1) (deps st1)
                  (\<lparr>dependencies = [], devDependencies = [], peerDependencies = []\<rparr>, []) of
             Inl e \<Rightarrow> Inl e
           | Inr (nd, bundled) \<Rightarrow>
               (case pkgfile of
                  None \<Rightarrow>
                    Inr (st1\<lparr>manifest_dependencies := dependencies nd,
                             manifest_devDependencies := devDependencies nd,
                             manifest_peerDependencies := peerDependencies nd,
                             manifest_bundledDependencies := bundled\<rparr>,
                         nd, [])
                | Some pkg \<Rightarrow>
                    (let (dev, log1) = readDeps (devDependencies nd) (pkg_devDependencies pkg);
                         (run, log2) = readDeps (dependencies nd) (pkg_dependencies pkg);
                         (peer, log3) = readDeps (peerDependencies nd) (pkg_peerDependencies pkg)
                     in Inr (st1\<lparr>manifest_dependencies := run,
                                 manifest_devDependencies := dev,
                                 manifest_peerDependencies := peer,
                                 manifest_bundledDependencies := bundled\<rparr>,
                             \<lparr>dependencies = run, devDependencies = dev, peerDependencies = peer\<rparr>,
                             log1 @ log2 @ log3)))))"

text \<open>\<^verbatim>\<open>preSynthesize\<close> stores the rendered dependencies in \<^verbatim>\<open>_renderedDeps\<close>.\<close>

definition preSynthesize ::
    "(string \<Rightarrow> minVersion_result) \<Rightarrow> PackageJson option \<Rightarrow> NpmPackage \<Rightarrow> error + NpmPackage \<times> log list" where
  "preSynthesize minVersion pkgfile st =
     (case renderDependencies minVersion pkgfile st of
        Inl e \<Rightarrow> Inl e
      | Inr (st1, nd, logs) \<Rightarrow> Inr (st1\<lparr>renderedDeps := Some nd\<rparr>, logs))"

subsection \<open>Resolving installed versions after the install\<close>

text \<open>
  \<^verbatim>\<open>sorted(toSort)()\<close>. The three branches of the source are the three constructors of
  \<open>sortable\<close>. The comparison \<^verbatim>\<open>l.localeCompare(r)\<close> depends on the locale of the
  runtime, so it is a parameter: \<open>le l r\<close> stands for \<^verbatim>\<open>l.localeCompare(r) <= 0\<close>.
  \<^verbatim>\<open>Array.prototype.sort\<close> is stable; \<open>sort_by\<close> is the stable insertion sort. The
  sorted entries are assigned one by one to a new object, so the result enumerates its
  array-index keys first, whatever the comparison says.
\<close>

datatype sortable = JArray "string list" | JObject obj | JOther

fun insort_by :: "('a \<Rightarrow> 'a \<Rightarrow> bool) \<Rightarrow> ('a \<times> 'b) \<Rightarrow> ('a \<times> 'b) list \<Rightarrow> ('a \<times> 'b) list" where
  "insort_by le x [] = [x]"
| "insort_by le x (y # ys) =
     (if le (fst x) (fst y) then x # y # ys else y # insort_by le x ys)"

definition sort_by :: "('a \<Rightarrow> 'a \<Rightarrow> bool) \<Rightarrow> ('a \<times> 'b) list \<Rightarrow> ('a \<times> 'b) list" where
  "sort_by le xs = foldr (insort_by le) xs []"

definition sorted_obj :: "(string \<Rightarrow> string \<Rightarrow> bool) \<Rightarrow> obj \<Rightarrow> obj" where
  "sorted_obj le ob = foldl (\<lambda>result (key, val). obj_set result key val) [] (sort_by le ob)"

fun sorted_js :: "(string \<Rightarrow> string \<Rightarrow> bool) \<Rightarrow> sortable \<Rightarrow> sortable" where
  "sorted_js le (JArray xs) = JArray (sort xs)"
| "sorted_js le (JObject ob) = JObject (sorted_obj le ob)"
| "sorted_js le JOther = JOther"

text \<open>
  \<open>installed n\<close> is the \<^verbatim>\<open>version\<close> field of \<^verbatim>\<open>n/package.json\<close> as resolved from the
  output directory, and \<open>None\<close> when \<^verbatim>\<open>require.resolve\<close> or the read raises (the
  \<^verbatim>\<open>catch\<close> block is empty).

  \<open>desiredVersion\<close> is the value of the variable of that name after the \<^verbatim>\<open>try\<close>
  block; \<open>resolveDeps_step\<close> is the body of the first loop of \<^verbatim>\<open>resolveDeps\<close>, on the
  pair of \<open>result\<close> and the lines logged so far.
\<close>

definition desiredVersion :: "(string \<Rightarrow> string option) \<Rightarrow> string \<Rightarrow> string \<Rightarrow> string" where
  "desiredVersion installed n currentDefinition =
     (if currentDefinition = ''*''
      then (case installed n of Some v \<Rightarrow> ''^'' @ v | None \<Rightarrow> currentDefinition)
      else currentDefinition)"

definition resolveDeps_step ::
    "(string \<Rightarrow> string option) \<Rightarrow> obj \<times> log list \<Rightarrow> string \<times> string \<Rightarrow> obj \<times> log list" where
  "resolveDeps_step installed acc e =
     (case (acc, e) of ((result, logs), (n, currentDefinition)) \<Rightarrow>
        (let desired = desiredVersion installed n currentDefinition
         in if currentDefinition = ''*'' \<and> desired = []
            then (result,
                  logs @ [Warn (''unable to resolve version for '' @ n @ '' from installed modules'')])
            else (obj_set result n desired,
                  logs @ (if currentDefinition \<noteq> desired
                          then [Verbose (n @ '': '' @ currentDefinition @ '' => '' @ desired)]
                          else []))))"

text \<open>
  \<^verbatim>\<open>resolveDeps(current, user)\<close>. \<open>current\<close> is a section of the \<^verbatim>\<open>package.json\<close> on
  disk; when the section is missing, \<^verbatim>\<open>Object.keys(current)\<close> raises. \<open>result\<close> is
  an object, so \<^verbatim>\<open>sorted(result)()\<close> takes the second branch of \<open>sorted_js\<close>.
\<close>

definition resolveDeps ::
    "(string \<Rightarrow> string \<Rightarrow> bool) \<Rightarrow> (string \<Rightarrow> string option) \<Rightarrow> obj option \<Rightarrow> obj
      \<Rightarrow> error + obj \<times> log list" where
  "resolveDeps le installed current user =
     (case foldl (resolveDeps_step installed) ([], []) user of
        (result, logs) \<Rightarrow>
          (case current of
             None \<Rightarrow> Inl TypeError
           | Some cur \<Rightarrow>
               Inr (sorted_obj le result,
                    logs @ map (\<lambda>n. Verbose (n @ '' removed''))
                             (filter (\<lambda>n. \<not> truthy (obj_get result n)) (map fst cur)))))"

text \<open>
  \<^verbatim>\<open>resolveDepsAndWritePackageJson\<close>: \<open>pkg\<close> is the \<^verbatim>\<open>package.json\<close> read from the
  output directory, the result is the one written back, with the lines logged.
\<close>

definition resolveDepsAndWritePackageJson ::
    "(string \<Rightarrow> string \<Rightarrow> bool) \<Rightarrow> (string \<Rightarrow> string option) \<Rightarrow> PackageJson \<Rightarrow> NpmPackage
      \<Rightarrow> error + PackageJson \<times> log list" where
  "resolveDepsAndWritePackageJson le installed pkg st =
     (case renderedDeps st of
        None \<Rightarrow> Inl AssertionFailed
      | Some rendered \<Rightarrow>
          (case resolveDeps le installed (pkg_dependencies pkg) (dependencies rendered) of
             Inl e \<Rightarrow> Inl e
           | Inr (run, log1) \<Rightarrow>
               (case resolveDeps le installed (pkg_devDependencies pkg) (devDependencies rendered) of
                  Inl e \<Rightarrow> Inl e
                | Inr (dev, log2) \<Rightarrow>
                    (case resolveDeps le installed (pkg_peerDependencies pkg)
                            (peerDependencies rendered) of
                       Inl e \<Rightarrow> Inl e
                     | Inr (peer, log3) \<Rightarrow>
                         Inr (pkg\<lparr>pkg_dependencies := Some run,
                                  pkg_devDependencies := Some dev,
                                  pkg_peerDependencies := Some peer\<rparr>,
                              log1 @ log2 @ log3)))))"

subsection \<open>Rendering a task invocation\<close>

definition npmScriptForTask :: "NpmPackage \<Rightarrow> Task \<Rightarrow> error + string" where
  "npmScriptForTask st task =
     (if npmTaskExecution st = ''projen'' then Inr (projenCommand st @ '' '' @ task_name task)
      else if npmTaskExecution st = ''shell'' then toShellCommand task
      else Inl (ConfigurationError (npmTaskExecution st)))"

text \<open>
  \<^verbatim>\<open>renderScripts\<close>, the value of the field \<^verbatim>\<open>scripts\<close> of the manifest: one entry per
  script, its commands joined by \<open>&&\<close>, then one entry per task of the project, the
  rendered command of the task; a task replaces a script of the same name. \<open>join\<close> is
  \<^verbatim>\<open>Array.prototype.join\<close>, \<open>echo_na\<close> the command of a script without commands.
\<close>

fun join :: "string \<Rightarrow> string list \<Rightarrow> string" where
  "join sep [] = []"
| "join sep [x] = x"
| "join sep (x # y # ys) = x @ sep @ join sep (y # ys)"

definition echo_na :: string where
  "echo_na = ''echo '' @ [CHR 0x22] @ ''n/a'' @ [CHR 0x22]"

fun renderScripts_tasks :: "NpmPackage \<Rightarrow> Task list \<Rightarrow> obj \<Rightarrow> error + obj" where
  "renderScripts_tasks st [] result = Inr result"
| "renderScripts_tasks st (task # rest) result =
     (case npmScriptForTask st task of
        Inl e \<Rightarrow> Inl e
      | Inr command \<Rightarrow> renderScripts_tasks st rest (obj_set result (task_name task) command))"

definition renderScripts :: "NpmPackage \<Rightarrow> error + obj" where
  "renderScripts st =
     renderScripts_tasks st (tasks st)
       (foldl (\<lambda>result (n, commands).
                 obj_set result n
                   (join '' && '' (if length commands > 0 then commands else [echo_na])))
          [] (scripts st))"

text \<open>
  The fields of \<^verbatim>\<open>NodeProject\<close> that \<^verbatim>\<open>runTaskCommand\<close> reads. The constructor
  computes \<^verbatim>\<open>runScriptCommand\<close> from the package manager.
\<close>

record NodeProject =
  npmPackage :: NpmPackage
  runScriptCommand :: string

definition new_runScriptCommand :: "NpmPackage \<Rightarrow> error + string" where
  "new_runScriptCommand pk =
     (if packageManager pk = ''npm'' then Inr ''npm run''
      else if packageManager pk = ''yarn'' then Inr ''yarn run''
      else Inl (UnexpectedPackageManager (packageManager pk)))"

definition runTaskCommand :: "NodeProject \<Rightarrow> Task \<Rightarrow> error + string" where
  "runTaskCommand pr task =
     (if npmTaskExecution (npmPackage pr) = ''projen''
      then Inr (projenCommand (npmPackage pr) @ '' '' @ task_name task)
      else if npmTaskExecution (npmPackage pr) = ''shell''
      then Inr (runScriptCommand pr @ '' '' @ task_name task)
      else Inl (ConfigurationError (npmTaskExecution (npmPackage pr))))"

subsection \<open>The synthesis of the component\<close>

text \<open>
  \<^verbatim>\<open>postSynthesize\<close> runs the install command of the package manager and then
  \<^verbatim>\<open>resolveDepsAndWritePackageJson\<close>. The install is an external process; what the
  model keeps of it is \<open>installed\<close>, the lookup of the modules it leaves in the output
  directory. \<open>pkg\<close> is the \<^verbatim>\<open>package.json\<close> on disk when the method runs.
\<close>

definition postSynthesize ::
    "(string \<Rightarrow> string \<Rightarrow> bool) \<Rightarrow> (string \<Rightarrow> string option) \<Rightarrow> PackageJson \<Rightarrow> NpmPackage
      \<Rightarrow> error + PackageJson \<times> log list" where
  "postSynthesize le installed pkg st = resolveDepsAndWritePackageJson le installed pkg st"

text \<open>
  Modelled from the spec: \<^verbatim>\<open>json.ts\<close> is not among the sources. The specification
  (4.2) says that the manifest-writing component emits the manifest in the middle phase:
  the \<^verbatim>\<open>JsonFile\<close> that the constructor creates for \<^verbatim>\<open>package.json\<close> writes
  \<^verbatim>\<open>this.manifest\<close>, of which the model keeps the three dependency sections and the
  scripts; the field \<^verbatim>\<open>scripts\<close> of the manifest is the function
  \<^verbatim>\<open>() => this.renderScripts()\<close>, called when the file is written.
\<close>

definition synthesize :: "NpmPackage \<Rightarrow> error + PackageJson" where
  "synthesize st =
     (case renderScripts st of
        Inl e \<Rightarrow> Inl e
      | Inr sc \<Rightarrow>
          Inr \<lparr>pkg_dependencies = Some (manifest_dependencies st),
               pkg_devDependencies = Some (manifest_devDependencies st),
               pkg_peerDependencies = Some (manifest_peerDependencies st),
               pkg_scripts = Some sc\<rparr>)"

text \<open>
  Modelled from the spec: \<^verbatim>\<open>project.ts\<close> is not among the sources. The specification
  (4.2) says that \<open>synth()\<close> runs \<open>preSynthesize\<close>, \<open>synthesize\<close> and \<open>postSynthesize\<close> in
  this order, and that a failure in any phase aborts the run. \<open>disk\<close> is the
  \<^verbatim>\<open>package.json\<close> found when the run starts (\<open>None\<close> when there is none); the result
  is the new state of the component, the \<^verbatim>\<open>package.json\<close> the run leaves on disk and
  the lines logged.
\<close>

definition synth ::
    "(string \<Rightarrow> string \<Rightarrow> bool) \<Rightarrow> (string \<Rightarrow> minVersion_result) \<Rightarrow> (string \<Rightarrow> string option)
      \<Rightarrow> PackageJson option \<Rightarrow> NpmPackage \<Rightarrow> error + NpmPackage \<times> PackageJson \<times> log list" where
  "synth le minVersion installed disk st =
     (case preSynthesize minVersion disk st of
        Inl e \<Rightarrow> Inl e
      | Inr (st1, log1) \<Rightarrow>
          (case synthesize st1 of
             Inl e \<Rightarrow> Inl e
           | Inr written \<Rightarrow>
               (case postSynthesize le installed written st1 of
                  Inl e \<Rightarrow> Inl e
                | Inr (pkg, log2) \<Rightarrow> Inr (st1, pkg, log1 @ log2))))"

subsection \<open>A freshly constructed component\<close>

text \<open>
  The state the constructor of \<^verbatim>\<open>NpmPackage\<close> leaves when the options give no
  dependencies, no keywords, no scripts and none of the optional settings, in a project
  without tasks: every \<^verbatim>\<open>??\<close> takes its default.
\<close>

definition new_NpmPackage :: NpmPackage where
  "new_NpmPackage =
     \<lparr>npmTaskExecution = ''projen'', projenCommand = ''npx projen'',
      allowLibraryDependencies = True, packageManager = ''yarn'',
      pinnedDevDependency = None, keywordSet = [], deps = [],
      manifest_dependencies = [], manifest_devDependencies = [],
      manifest_peerDependencies = [], manifest_bundledDependencies = [],
      renderedDeps = None, scripts = [], tasks = []\<rparr>"

subsection \<open>Example environments\<close>

text \<open>
  The environments of the concrete runs below: what the semver library gives for the
  ranges of the examples, an output directory in which no module is installed, and one
  in which \<^verbatim>\<open>left-pad\<close> is installed at 1.3.0. The range \<open>>2.0.0 <1.0.0\<close> parses, but
  no version satisfies it; any string that is not listed stands for one that the library
  cannot parse, like \<open>latest\<close>.
\<close>

definition example_minVersion :: "string \<Rightarrow> minVersion_result" where
  "example_minVersion r =
     (if r = ''^16'' then MinVersion ''16.0.0''
      else if r = ''^2.0.0'' then MinVersion ''2.0.0''
      else if r = ''^3'' then MinVersion ''3.0.0''
      else if r = ''>2.0.0 <1.0.0'' then NoMinimum
      else InvalidRange)"

definition nothing_installed :: "string \<Rightarrow> string option" where
  "nothing_installed n = None"

definition leftpad_installed :: "string \<Rightarrow> string option" where
  "leftpad_installed n = (if n = ''left-pad'' then Some ''1.3.0'' else None)"

subsection \<open>Notions used in the statements\<close>

text \<open>The key of a ledger entry: its name and its role.\<close>

definition dep_key :: "Dependency \<Rightarrow> string \<times> DependencyType" where
  "dep_key d = (name d, type d)"

text \<open>
  A package name: not empty, and with no \<open>@\<close> except possibly in front (a scoped
  package).
\<close>

definition wf_name :: "string \<Rightarrow> bool" where
  "wf_name n = (n \<noteq> [] \<and> CHR ''@'' \<notin> set (tl n))"

text \<open>The entry that \<^verbatim>\<open>addDevDeps(req)\<close> puts into the ledger.\<close>

definition pinnedDep :: "string \<Rightarrow> Dependency" where
  "pinnedDep req = (case parseDependency req of (n, v) \<Rightarrow> \<lparr>name = n, version = v, type = BUILD\<rparr>)"

text \<open>
  The roles that the second loop writes into each of the three objects, and the object
  that the loop builds from the entries of these roles, starting from \<open>ob\<close>.
\<close>

definition in_runtime :: "DependencyType \<Rightarrow> bool" where
  "in_runtime t = (t = RUNTIME \<or> t = BUNDLED)"

definition in_dev :: "DependencyType \<Rightarrow> bool" where
  "in_dev t = (t = BUILD \<or> t = TEST \<or> t = DEVENV)"

definition in_peer :: "DependencyType \<Rightarrow> bool" where
  "in_peer t = (t = PEER)"

definition fill :: "(DependencyType \<Rightarrow> bool) \<Rightarrow> Dependency list \<Rightarrow> obj \<Rightarrow> obj" where
  "fill P L ob = foldl (\<lambda>ob d. obj_set ob (name d) (versionOrStar d)) ob (filter (\<lambda>d. P (type d)) L)"

text \<open>
  The value that \<^verbatim>\<open>readDeps\<close> leaves for the key \<open>n\<close> whose new value is
  \<open>userVersion\<close>, given the section \<open>current\<close> of the manifest on disk.
\<close>

definition reconciled :: "obj \<Rightarrow> string \<Rightarrow> string \<Rightarrow> string" where
  "reconciled current n userVersion =
     (if userVersion \<noteq> ''*'' \<or> \<not> truthy (obj_get current n) \<or> obj_get current n = Some ''*''
      then userVersion else the (obj_get current n))"

text \<open>
  The three stages of \<^verbatim>\<open>renderDependencies\<close> on their own: the block guarded by
  \<^verbatim>\<open>pinned\<close>, the empty accumulator of the second loop, and the reconciliation with
  the manifest on disk.
\<close>

definition pinPhase :: "(string \<Rightarrow> minVersion_result) \<Rightarrow> NpmPackage \<Rightarrow> error + NpmPackage" where
  "pinPhase mv st =
     (if (case pinnedDevDependency st of None \<Rightarrow> True | Some b \<Rightarrow> b)
      then pinPeers mv (filter (\<lambda>d. type d = PEER) (deps st)) st
      else Inr st)"

definition emptyDeps :: NpmDependencies where
  "emptyDeps = \<lparr>dependencies = [], devDependencies = [], peerDependencies = []\<rparr>"

definition reconcile :: "PackageJson option \<Rightarrow> NpmDependencies \<Rightarrow> NpmDependencies \<times> log list" where
  "reconcile pkgfile nd =
     (case pkgfile of
        None \<Rightarrow> (nd, [])
      | Some pkg \<Rightarrow>
          (\<lparr>dependencies = fst (readDeps (dependencies nd) (pkg_dependencies pkg)),
            devDependencies = fst (readDeps (devDependencies nd) (pkg_devDependencies pkg)),
            peerDependencies = fst (readDeps (peerDependencies nd) (pkg_peerDependencies pkg))\<rparr>,
           snd (readDeps (devDependencies nd) (pkg_devDependencies pkg))
           @ snd (readDeps (dependencies nd) (pkg_dependencies pkg))
           @ snd (readDeps (peerDependencies nd) (pkg_peerDependencies pkg))))"

text \<open>
  The first PEER entry of the ledger, in the order of \<^verbatim>\<open>deps.all\<close>, for which the
  pinning loop raises.
\<close>

definition firstFailingPeer ::
    "(string \<Rightarrow> minVersion_result) \<Rightarrow> Dependency list \<Rightarrow> Dependency option" where
  "firstFailingPeer mv L =
     List.find (\<lambda>q. isl (pinnedRequest mv q)) (filter (\<lambda>d. type d = PEER) L)"

text \<open>A ledger in which some name is both BUNDLED and PEER.\<close>

definition conflicting :: "Dependency list \<Rightarrow> bool" where
  "conflicting L =
     list_ex (\<lambda>b. type b = BUNDLED \<and> list_ex (\<lambda>p. type p = PEER \<and> name p = name b) L) L"

text \<open>A section of the manifest on disk, empty when the file or the section is missing.\<close>

definition priorSection :: "(PackageJson \<Rightarrow> obj option) \<Rightarrow> PackageJson option \<Rightarrow> obj" where
  "priorSection sel pkgfile =
     (case pkgfile of None \<Rightarrow> [] | Some pkg \<Rightarrow> (case sel pkg of None \<Rightarrow> [] | Some c \<Rightarrow> c))"

text \<open>
  The end-to-end scenario of the specification: \<^verbatim>\<open>addDeps("left-pad")\<close>,
  \<^verbatim>\<open>addDevDeps("test-lib@^3")\<close>, \<^verbatim>\<open>addPeerDeps("react@^16")\<close> on a fresh component.
\<close>

definition scenario :: "error + NpmPackage" where
  "scenario =
     addPeerDeps (addDevDeps (addDeps new_NpmPackage [''left-pad'']) [''test-lib@^3''])
       [''react@^16'']"

text \<open>
  The entry that peer pinning adds for the PEER entry \<open>p\<close>: a BUILD entry of the same
  name, at the minimum version of the declared range when there is one.
\<close>

definition pinnedEntry :: "(string \<Rightarrow> minVersion_result) \<Rightarrow> Dependency \<Rightarrow> Dependency" where
  "pinnedEntry mv p =
     \<lparr>name = name p,
      version = (case version p of
                   None \<Rightarrow> None
                 | Some v \<Rightarrow>
                     if v = [] then None
                     else (case mv v of MinVersion ver \<Rightarrow> Some ver | _ \<Rightarrow> None)),
      type = BUILD\<rparr>"

text \<open>The three objects of the rendered dependencies, and the one each role goes to.\<close>

datatype bucket = RuntimeBucket | DevBucket | PeerBucket

fun bucketOf :: "DependencyType \<Rightarrow> bucket" where
  "bucketOf RUNTIME = RuntimeBucket"
| "bucketOf BUNDLED = RuntimeBucket"
| "bucketOf PEER = PeerBucket"
| "bucketOf BUILD = DevBucket"
| "bucketOf TEST = DevBucket"
| "bucketOf DEVENV = DevBucket"

fun bucketContents :: "bucket \<Rightarrow> NpmDependencies \<Rightarrow> obj" where
  "bucketContents RuntimeBucket nd = dependencies nd"
| "bucketContents DevBucket nd = devDependencies nd"
| "bucketContents PeerBucket nd = peerDependencies nd"

text \<open>
  The keys that are array indices, and the lists of entries that are an object: the
  keys are distinct and no key stands after one that is enumerated after it.
\<close>

definition is_array_index :: "string \<Rightarrow> bool" where
  "is_array_index k = (array_index k \<noteq> None)"

definition enum_ok :: "string \<Rightarrow> string \<Rightarrow> bool" where
  "enum_ok a b = (a \<noteq> b \<and> \<not> key_before b a)"

definition wf_obj :: "(string \<times> 'v) list \<Rightarrow> bool" where
  "wf_obj ob = sorted_wrt enum_ok (map fst ob)"

text \<open>
  The section that \<^verbatim>\<open>resolveDeps\<close> returns for the rendered section \<open>user\<close> (an
  object).
\<close>

definition resolvedSection ::
    "(string \<Rightarrow> string \<Rightarrow> bool) \<Rightarrow> (string \<Rightarrow> string option) \<Rightarrow> obj \<Rightarrow> obj" where
  "resolvedSection le installed user =
     sorted_obj le (map (\<lambda>(n, u). (n, desiredVersion installed n u)) user)"

section \<open>Properties\<close>

subsection \<open>Objects\<close>

lemma keys_obj_insert: "fst ` set (obj_insert ob k v) = insert k (fst ` set ob)"
  by (induction ob k v rule: obj_insert.induct) auto

lemma keys_obj_update: "fst ` set (obj_update ob k v) = fst ` set ob"
  by (induction ob k v rule: obj_update.induct) auto

lemma map_fst_obj_update: "map fst (obj_update ob k v) = map fst ob"
  by (induction ob k v rule: obj_update.induct) auto

lemma keys_obj_set: "fst ` set (obj_set ob k v) = insert k (fst ` set ob)"
  by (auto simp: obj_set_def keys_obj_insert keys_obj_update map_of_eq_None_iff)

lemma distinct_obj_insert:
  "k \<notin> fst ` set ob \<Longrightarrow> distinct (map fst ob) \<Longrightarrow> distinct (map fst (obj_insert ob k v))"
proof (induction ob k v rule: obj_insert.induct)
  case (1 k v)
  then show ?case by simp
next
  case (2 k' v' kvs k v)
  then show ?case using keys_obj_insert [of kvs k v] by (auto simp: image_iff)
qed

lemma distinct_obj_set: "distinct (map fst ob) \<Longrightarrow> distinct (map fst (obj_set ob k v))"
  by (simp add: obj_set_def distinct_obj_insert map_fst_obj_update map_of_eq_None_iff)

lemma map_of_obj_insert:
  "k \<notin> fst ` set ob \<Longrightarrow> map_of (obj_insert ob k v) k' = (if k' = k then Some v else map_of ob k')"
  by (induction ob k v rule: obj_insert.induct) auto

lemma map_of_obj_update:
  "k \<in> fst ` set ob \<Longrightarrow> map_of (obj_update ob k v) k' = (if k' = k then Some v else map_of ob k')"
proof (induction ob)
  case Nil
  then show ?case by simp
next
  case (Cons x ob)
  obtain a b where x: "x = (a, b)" by (cases x)
  show ?case
  proof (cases "a = k")
    case True
    then show ?thesis by (simp add: x)
  next
    case False
    with Cons.prems x have "k \<in> fst ` set ob" by auto
    from Cons.IH [OF this] False show ?thesis by (auto simp: x)
  qed
qed

lemma obj_get_obj_set: "obj_get (obj_set ob k v) k' = (if k' = k then Some v else obj_get ob k')"
  unfolding obj_get_def obj_set_def
  by (simp add: map_of_obj_insert map_of_obj_update map_of_eq_None_iff)

lemma obj_set_middle:
  "n \<notin> fst ` set pre \<Longrightarrow> obj_set (pre @ (n, u) # xs) n v = pre @ (n, v) # xs"
proof -
  assume a: "n \<notin> fst ` set pre"
  have "obj_update (pre @ (n, u) # xs) n v = pre @ (n, v) # xs"
    using a by (induction pre) auto
  moreover have "map_of (pre @ (n, u) # xs) n \<noteq> None"
    by (simp add: map_of_eq_None_iff)
  ultimately show ?thesis by (simp add: obj_set_def)
qed

lemma obj_insert_last:
  "(\<And>a. a \<in> fst ` set ob \<Longrightarrow> \<not> key_before k a) \<Longrightarrow> obj_insert ob k v = ob @ [(k, v)]"
  by (induction ob k v rule: obj_insert.induct) auto

lemma obj_set_last:
  assumes "wf_obj (ob @ [(k, v)])"
  shows "obj_set ob k v = ob @ [(k, v)]"
proof -
  from assms have new: "k \<notin> fst ` set ob" and nb: "\<And>a. a \<in> fst ` set ob \<Longrightarrow> \<not> key_before k a"
    by (auto simp: wf_obj_def sorted_wrt_append enum_ok_def)
  from new have "map_of ob k = None" by (simp add: map_of_eq_None_iff)
  then show ?thesis by (simp add: obj_set_def obj_insert_last [OF nb])
qed

lemma wf_obj_distinct: "wf_obj ob \<Longrightarrow> distinct (map fst ob)"
proof -
  assume "wf_obj ob"
  then have "sorted_wrt (\<noteq>) (map fst ob)"
    unfolding wf_obj_def by (rule sorted_wrt_mono_rel [rotated]) (simp add: enum_ok_def)
  then show ?thesis by (simp add: distinct_conv_nth sorted_wrt_iff_nth_less) (metis nat_neq_iff)
qed


lemma wf_obj_obj_insert:
  "wf_obj ob \<Longrightarrow> k \<notin> fst ` set ob \<Longrightarrow> wf_obj (obj_insert ob k v)"
proof (induction ob)
  case Nil
  then show ?case by (simp add: wf_obj_def)
next
  case (Cons x ob)
  obtain a b where x: "x = (a, b)" by (cases x)
  from Cons.prems have tl: "wf_obj ob" and new: "k \<notin> fst ` set ob" and ka: "k \<noteq> a"
    and hd: "\<And>c. c \<in> fst ` set ob \<Longrightarrow> enum_ok a c"
    by (auto simp: wf_obj_def x)
  show ?case
  proof (cases "key_before k a")
    case True
    have "enum_ok k a" using True ka
      by (auto simp: enum_ok_def key_before_def split: option.splits)
    moreover have "enum_ok k c" if "c \<in> fst ` set ob" for c
      using hd [OF that] True new that
      by (auto simp: enum_ok_def key_before_def split: option.splits)
    ultimately show ?thesis using Cons.prems True by (auto simp: wf_obj_def x)
  next
    case False
    have "enum_ok a k" using False ka by (simp add: enum_ok_def)
    with Cons.IH [OF tl new] hd False show ?thesis
      using keys_obj_insert [of ob k v] by (auto simp: wf_obj_def x)
  qed
qed

lemma wf_obj_obj_set: "wf_obj ob \<Longrightarrow> wf_obj (obj_set ob k v)"
proof (cases "map_of ob k = None")
  case True
  assume "wf_obj ob"
  moreover from True have "k \<notin> fst ` set ob" by (simp add: map_of_eq_None_iff)
  ultimately have "wf_obj (obj_insert ob k v)" by (rule wf_obj_obj_insert)
  with True show ?thesis by (simp add: obj_set_def)
next
  case False
  assume "wf_obj ob"
  then have "wf_obj (obj_update ob k v)" by (simp add: wf_obj_def map_fst_obj_update)
  with False show ?thesis by (auto simp: obj_set_def)
qed

lemma wf_obj_Nil: "wf_obj []"
  by (simp add: wf_obj_def)

lemma filter_obj_insert_other:
  "\<not> is_array_index k \<Longrightarrow> obj_insert ob k v = ob @ [(k, v)]"
  by (rule obj_insert_last) (simp add: key_before_def is_array_index_def)

lemma filter_obj_insert_index:
  "is_array_index k \<Longrightarrow>
   filter (\<lambda>e. \<not> is_array_index (fst e)) (obj_insert ob k v)
     = filter (\<lambda>e. \<not> is_array_index (fst e)) ob"
  by (induction ob k v rule: obj_insert.induct) auto

lemma wf_obj_split:
  "wf_obj ob \<Longrightarrow>
   ob = filter (\<lambda>e. is_array_index (fst e)) ob @ filter (\<lambda>e. \<not> is_array_index (fst e)) ob"
proof (induction ob)
  case Nil
  then show ?case by simp
next
  case (Cons x ob)
  from Cons.prems have tl: "wf_obj ob" and hd: "\<And>c. c \<in> set ob \<Longrightarrow> enum_ok (fst x) (fst c)"
    by (auto simp: wf_obj_def)
  show ?case
  proof (cases "is_array_index (fst x)")
    case True
    with Cons.IH [OF tl] show ?thesis by simp
  next
    case False
    have "\<not> is_array_index (fst c)" if "c \<in> set ob" for c
      using hd [OF that] False
      by (auto simp: enum_ok_def key_before_def is_array_index_def split: option.splits)
    then have "filter (\<lambda>e. is_array_index (fst e)) ob = []"
      "filter (\<lambda>e. \<not> is_array_index (fst e)) ob = ob"
      by (simp_all add: filter_empty_conv filter_id_conv)
    with False show ?thesis by simp
  qed
qed

lemma decimal_snoc: "decimal (s @ [c]) = 10 * decimal s + digit_value c"
  by (simp add: decimal_def)

lemma digit_value_less: "is_digit c \<Longrightarrow> digit_value c < 10"
  by (auto simp: is_digit_def digit_value_def)

lemma digit_value_inj: "is_digit a \<Longrightarrow> is_digit b \<Longrightarrow> digit_value a = digit_value b \<Longrightarrow> a = b"
  by (auto simp: is_digit_def digit_value_def)

lemma digit_value_pos: "is_digit c \<Longrightarrow> c \<noteq> CHR ''0'' \<Longrightarrow> 0 < digit_value c"
  by (auto simp: is_digit_def digit_value_def)

lemma decimal_pos:
  "list_all is_digit s \<Longrightarrow> s \<noteq> [] \<Longrightarrow> hd s \<noteq> CHR ''0'' \<Longrightarrow> 0 < decimal s"
proof (induction s rule: rev_induct)
  case Nil
  then show ?case by simp
next
  case (snoc c xs)
  show ?case
  proof (cases "xs = []")
    case True
    with snoc.prems show ?thesis by (simp add: decimal_def digit_value_pos)
  next
    case False
    with snoc.prems have "0 < decimal xs" by (intro snoc.IH) simp_all
    then show ?thesis by (simp add: decimal_snoc)
  qed
qed

lemma decimal_inj:
  "list_all is_digit a \<Longrightarrow> list_all is_digit b \<Longrightarrow> (a = [] \<or> hd a \<noteq> CHR ''0'') \<Longrightarrow>
   (b = [] \<or> hd b \<noteq> CHR ''0'') \<Longrightarrow> decimal a = decimal b \<Longrightarrow> a = b"
proof (induction a arbitrary: b rule: rev_induct)
  case Nil
  show ?case
  proof (rule ccontr)
    assume "[] \<noteq> b"
    with Nil.prems have "0 < decimal b" by (intro decimal_pos) auto
    with Nil.prems show False by (simp add: decimal_def)
  qed
next
  case (snoc c xs)
  have pos: "0 < decimal (xs @ [c])" using snoc.prems by (intro decimal_pos) auto
  then have "b \<noteq> []" using snoc.prems(5) by (auto simp: decimal_def)
  then obtain ys d where b: "b = ys @ [d]" by (cases b rule: rev_cases) auto
  from snoc.prems b have dc: "is_digit c" and dd: "is_digit d" by simp_all
  from snoc.prems(5) b have "10 * decimal xs + digit_value c = 10 * decimal ys + digit_value d"
    by (simp add: decimal_snoc)
  with digit_value_less [OF dc] digit_value_less [OF dd]
  have e: "decimal xs = decimal ys" "digit_value c = digit_value d" by arith+
  from digit_value_inj [OF dc dd e(2)] have cd: "c = d" .
  have "xs = ys"
  proof (rule snoc.IH [OF _ _ _ _ e(1)])
    show "list_all is_digit xs" using snoc.prems by simp
    show "list_all is_digit ys" using snoc.prems b by simp
    show "xs = [] \<or> hd xs \<noteq> CHR ''0''" using snoc.prems(3) by (cases xs) auto
    show "ys = [] \<or> hd ys \<noteq> CHR ''0''" using snoc.prems(4) b by (cases ys) auto
  qed
  with cd b show ?case by simp
qed

lemma array_index_inj:
  assumes "array_index a = Some i" and "array_index b = Some i"
  shows "a = b"
proof -
  from assms(1) have a: "a \<noteq> []" "list_all is_digit a" "hd a = CHR ''0'' \<Longrightarrow> a = ''0''"
    "decimal a = i"
    by (auto simp: array_index_def split: if_splits)
  from assms(2) have b: "b \<noteq> []" "list_all is_digit b" "hd b = CHR ''0'' \<Longrightarrow> b = ''0''"
    "decimal b = i"
    by (auto simp: array_index_def split: if_splits)
  have zero: "decimal ''0'' = 0" by (simp add: decimal_def digit_value_def)
  show ?thesis
  proof (cases "hd a = CHR ''0''")
    case True
    then have a0: "a = ''0''" by (rule a(3))
    with a(4) zero have i: "i = 0" by simp
    show ?thesis
    proof (cases "hd b = CHR ''0''")
      case True
      then show ?thesis using a0 b(3) by simp
    next
      case False
      from decimal_pos [OF b(2,1) False] b(4) i show ?thesis by simp
    qed
  next
    case False
    show ?thesis
    proof (cases "hd b = CHR ''0''")
      case True
      then have "b = ''0''" by (rule b(3))
      with b(4) zero have "i = 0" by simp
      with decimal_pos [OF a(2,1) False] a(4) show ?thesis by simp
    next
      case hb: False
      show ?thesis by (rule decimal_inj [OF a(2) b(2)]) (use False hb a(4) b(4) in simp_all)
    qed
  qed
qed

lemma wf_obj_index_sorted:
  "wf_obj ob \<Longrightarrow>
   sorted_wrt (\<lambda>a b. the (array_index a) < the (array_index b))
     (filter is_array_index (map fst ob))"
proof (induction ob)
  case Nil
  then show ?case by simp
next
  case (Cons x ob)
  from Cons.prems have tl: "wf_obj ob" and hd: "\<And>c. c \<in> set ob \<Longrightarrow> enum_ok (fst x) (fst c)"
    by (auto simp: wf_obj_def)
  have "the (array_index (fst x)) < the (array_index (fst c))"
    if "c \<in> set ob" "is_array_index (fst c)" "is_array_index (fst x)" for c
  proof -
    from that(2,3) obtain i j where i: "array_index (fst x) = Some i"
      and j: "array_index (fst c) = Some j"
      by (auto simp: is_array_index_def)
    from hd [OF that(1)] have "fst x \<noteq> fst c" "\<not> key_before (fst c) (fst x)"
      by (simp_all add: enum_ok_def)
    with i j array_index_inj [of "fst x" i "fst c"] have "i < j"
      by (cases "i = j") (auto simp: key_before_def)
    with i j show ?thesis by simp
  qed
  with Cons.IH [OF tl] show ?case by auto
qed

lemma obj_set_Nil: "obj_set [] k v = [(k, v)]"
  by (simp add: obj_set_def)

lemma name_not_index: "\<not> is_digit c \<Longrightarrow> array_index (c # cs) = None"
  by (simp add: array_index_def)

lemma obj_set_new_name:
  "array_index k = None \<Longrightarrow> map_of ob k = None \<Longrightarrow> obj_set ob k v = ob @ [(k, v)]"
  by (simp add: obj_set_def filter_obj_insert_other is_array_index_def)

lemma obj_set_old: "map_of ob k \<noteq> None \<Longrightarrow> obj_set ob k v = obj_update ob k v"
  by (auto simp: obj_set_def)

lemmas obj_set_eval = obj_set_Nil obj_set_new_name obj_set_old name_not_index is_digit_def

subsection \<open>Sorting by key\<close>

lemma set_insort_by: "set (insort_by le x ys) = insert x (set ys)"
  by (induction ys) auto

lemma distinct_insort_by:
  "distinct (map fst (insort_by le x ys)) \<longleftrightarrow> fst x \<notin> fst ` set ys \<and> distinct (map fst ys)"
  by (induction ys) (auto simp: set_insort_by)

lemma set_sort_by: "set (sort_by le xs) = set xs"
  by (induction xs) (auto simp: sort_by_def set_insort_by)

lemma distinct_sort_by: "distinct (map fst (sort_by le xs)) \<longleftrightarrow> distinct (map fst xs)"
proof (induction xs)
  case Nil
  then show ?case by (simp add: sort_by_def)
next
  case (Cons x xs)
  have "sort_by le (x # xs) = insort_by le x (sort_by le xs)" by (simp add: sort_by_def)
  then show ?case using Cons by (simp add: distinct_insort_by set_sort_by)
qed

lemma sorted_insort_by:
  assumes total: "\<And>x y. le x y \<or> le y x" and trans: "\<And>x y z. le x y \<Longrightarrow> le y z \<Longrightarrow> le x z"
  shows "sorted_wrt le (map fst ys) \<Longrightarrow> sorted_wrt le (map fst (insort_by le x ys))"
proof (induction ys)
  case Nil
  then show ?case by simp
next
  case (Cons y ys)
  show ?case
  proof (cases "le (fst x) (fst y)")
    case True
    have "le (fst x) (fst z)" if "z \<in> set ys" for z
      using Cons.prems True that trans by auto
    with True Cons.prems show ?thesis by auto
  next
    case False
    then have "le (fst y) (fst x)" using total by blast
    with False Cons show ?thesis by (auto simp: set_insort_by)
  qed
qed

lemma sorted_sort_by:
  assumes total: "\<And>x y. le x y \<or> le y x" and trans: "\<And>x y z. le x y \<Longrightarrow> le y z \<Longrightarrow> le x z"
  shows "sorted_wrt le (map fst (sort_by le xs))"
proof (induction xs)
  case Nil
  then show ?case by (simp add: sort_by_def)
next
  case (Cons x xs)
  have "sort_by le (x # xs) = insort_by le x (sort_by le xs)" by (simp add: sort_by_def)
  with Cons show ?case using sorted_insort_by [of le, OF total trans] by simp
qed

lemma obj_get_foldl_obj_set:
  "obj_get (foldl (\<lambda>result (key, val). obj_set result key val) acc xs) k
     = (case map_of (rev xs) k of None \<Rightarrow> obj_get acc k | Some v \<Rightarrow> Some v)"
proof (induction xs rule: rev_induct)
  case Nil
  show ?case by simp
next
  case (snoc x xs)
  obtain n u where x: "x = (n, u)" by (cases x)
  show ?case by (simp add: x obj_get_obj_set snoc.IH)
qed

lemma keys_foldl_obj_set_entries:
  "fst ` set (foldl (\<lambda>result (key, val). obj_set result key val) acc xs)
     = fst ` set acc \<union> fst ` set xs"
proof (induction xs arbitrary: acc)
  case Nil
  then show ?case by simp
next
  case (Cons e xs)
  obtain n u where e: "e = (n, u)" by (cases e)
  show ?case by (simp add: Cons.IH e keys_obj_set)
qed

lemma wf_foldl_obj_set_entries:
  "wf_obj acc \<Longrightarrow> wf_obj (foldl (\<lambda>result (key, val). obj_set result key val) acc xs)"
proof (induction xs arbitrary: acc)
  case Nil
  then show ?case by simp
next
  case (Cons e xs)
  obtain n u where e: "e = (n, u)" by (cases e)
  show ?case using Cons.prems by (simp add: Cons.IH e wf_obj_obj_set)
qed

lemma nonindex_obj_set:
  assumes "k \<notin> fst ` set ob"
  shows "filter (\<lambda>e. \<not> is_array_index (fst e)) (obj_set ob k v)
     = filter (\<lambda>e. \<not> is_array_index (fst e)) ob @ (if is_array_index k then [] else [(k, v)])"
proof -
  from assms have "obj_set ob k v = obj_insert ob k v"
    by (simp add: obj_set_def map_of_eq_None_iff)
  then show ?thesis
    by (simp add: filter_obj_insert_index filter_obj_insert_other)
qed

lemma nonindex_foldl_obj_set:
  "distinct (map fst (acc @ xs)) \<Longrightarrow>
   filter (\<lambda>e. \<not> is_array_index (fst e))
     (foldl (\<lambda>result (key, val). obj_set result key val) acc xs)
     = filter (\<lambda>e. \<not> is_array_index (fst e)) acc
       @ filter (\<lambda>e. \<not> is_array_index (fst e)) xs"
proof (induction xs arbitrary: acc)
  case Nil
  then show ?case by simp
next
  case (Cons x xs)
  obtain k v where x: "x = (k, v)" by (cases x)
  from Cons.prems x have fresh: "k \<notin> fst ` set acc" by auto
  have "distinct (map fst (obj_set acc k v))"
    using Cons.prems by (intro distinct_obj_set) simp
  moreover have "fst ` set (obj_set acc k v) \<inter> fst ` set xs = {}"
    using Cons.prems x by (auto simp: keys_obj_set)
  moreover have "distinct (map fst xs)" using Cons.prems by simp
  ultimately have "distinct (map fst (obj_set acc k v @ xs))" by simp
  from Cons.IH [OF this] show ?case
    by (simp add: x nonindex_obj_set [OF fresh])
qed

lemma keys_sorted_obj: "fst ` set (sorted_obj le ob) = fst ` set ob"
  by (simp add: sorted_obj_def keys_foldl_obj_set_entries set_sort_by)

lemma wf_sorted_obj: "wf_obj (sorted_obj le ob)"
  unfolding sorted_obj_def by (rule wf_foldl_obj_set_entries) (rule wf_obj_Nil)

lemma nonindex_sorted_obj:
  "distinct (map fst ob) \<Longrightarrow>
   filter (\<lambda>e. \<not> is_array_index (fst e)) (sorted_obj le ob)
     = filter (\<lambda>e. \<not> is_array_index (fst e)) (sort_by le ob)"
  unfolding sorted_obj_def
  using nonindex_foldl_obj_set [of "[]" "sort_by le ob"] by (simp add: distinct_sort_by)

lemma obj_get_sorted_obj:
  assumes "distinct (map fst ob)"
  shows "obj_get (sorted_obj le ob) k = obj_get ob k"
proof -
  have "distinct (map fst (rev (sort_by le ob)))"
    using assms by (simp add: distinct_sort_by rev_map [symmetric])
  then have m: "map_of (rev (sort_by le ob)) = map_of ob"
    using assms by (simp add: map_of_inject_set set_sort_by)
  have "obj_get (sorted_obj le ob) k
          = (case map_of (rev (sort_by le ob)) k of None \<Rightarrow> obj_get [] k | Some v \<Rightarrow> Some v)"
    unfolding sorted_obj_def by (rule obj_get_foldl_obj_set)
  then show ?thesis by (simp add: m obj_get_def split: option.splits)
qed

lemma sorted_obj_no_index:
  assumes "distinct (map fst ob)" and "list_all (\<lambda>k. \<not> is_array_index k) (map fst ob)"
  shows "sorted_obj le ob = sort_by le ob"
proof -
  have none: "\<not> is_array_index (fst e)" if "e \<in> set ob" for e
    using assms(2) that by (auto simp: list_all_iff)
  have "filter (\<lambda>e. is_array_index (fst e)) (sorted_obj le ob) = []"
  proof -
    have "\<not> is_array_index (fst e)" if "e \<in> set (sorted_obj le ob)" for e
    proof -
      from that have "fst e \<in> fst ` set (sorted_obj le ob)" by (rule imageI)
      then have "fst e \<in> fst ` set ob" by (simp only: keys_sorted_obj)
      then show ?thesis using none by auto
    qed
    then show ?thesis by (simp add: filter_empty_conv)
  qed
  moreover have "filter (\<lambda>e. \<not> is_array_index (fst e)) (sort_by le ob) = sort_by le ob"
    using none by (simp add: filter_id_conv set_sort_by)
  ultimately show ?thesis
    using wf_obj_split [OF wf_sorted_obj, of le ob] nonindex_sorted_obj [OF assms(1), of le]
    by simp
qed

lemma sorted_wrt_nonindex_sorted_obj:
  assumes total: "\<And>x y. le x y \<or> le y x" and trans: "\<And>x y z. le x y \<Longrightarrow> le y z \<Longrightarrow> le x z"
    and "distinct (map fst ob)"
  shows "sorted_wrt le (filter (\<lambda>k. \<not> is_array_index k) (map fst (sorted_obj le ob)))"
proof -
  have "filter (\<lambda>k. \<not> is_array_index k) (map fst (sorted_obj le ob))
          = map fst (filter (\<lambda>e. \<not> is_array_index (fst e)) (sorted_obj le ob))"
    by (simp add: filter_map comp_def)
  also have "\<dots> = filter (\<lambda>k. \<not> is_array_index k) (map fst (sort_by le ob))"
    by (simp add: nonindex_sorted_obj [OF assms(3)] filter_map comp_def)
  finally show ?thesis
    using sorted_sort_by [of le ob, OF total trans] by (simp add: sorted_wrt_filter)
qed

subsection \<open>The loop of resolveDeps\<close>

lemma desiredVersion_nonempty: "desiredVersion installed n ''*'' \<noteq> []"
  by (simp add: desiredVersion_def split: option.splits)

lemma resolveDeps_step_result:
  "fst (resolveDeps_step installed acc (n, u)) = obj_set (fst acc) n (desiredVersion installed n u)"
  by (cases acc) (auto simp: resolveDeps_step_def Let_def desiredVersion_nonempty)

lemma resolveDeps_loop_result:
  "fst (foldl (resolveDeps_step installed) acc user)
     = foldl (\<lambda>result (n, u). obj_set result n (desiredVersion installed n u)) (fst acc) user"
proof (induction user arbitrary: acc)
  case Nil
  then show ?case by simp
next
  case (Cons e user)
  obtain n u where e: "e = (n, u)" by (cases e)
  show ?case by (simp add: Cons.IH e resolveDeps_step_result)
qed

lemma keys_foldl_obj_set:
  "fst ` set (foldl (\<lambda>result (n, u). obj_set result n (f n u)) acc user)
     = fst ` set acc \<union> fst ` set user"
proof (induction user arbitrary: acc)
  case Nil
  then show ?case by simp
next
  case (Cons e user)
  obtain n u where e: "e = (n, u)" by (cases e)
  show ?case by (simp add: Cons.IH e keys_obj_set)
qed

lemma distinct_foldl_obj_set:
  "distinct (map fst acc) \<Longrightarrow>
   distinct (map fst (foldl (\<lambda>result (n, u). obj_set result n (f n u)) acc user))"
proof (induction user arbitrary: acc)
  case Nil
  then show ?case by simp
next
  case (Cons e user)
  obtain n u where e: "e = (n, u)" by (cases e)
  show ?case using Cons.prems by (simp add: Cons.IH e distinct_obj_set)
qed

lemma resolveDeps_result:
  assumes "resolveDeps le installed current user = Inr (res, logs)"
  shows "res = sorted_obj le
           (foldl (\<lambda>result (n, u). obj_set result n (desiredVersion installed n u)) [] user)"
proof -
  let ?r = "foldl (\<lambda>result (n, u). obj_set result n (desiredVersion installed n u)) [] user"
  have r: "fst (foldl (resolveDeps_step installed) ([], []) user) = ?r"
    by (simp add: resolveDeps_loop_result)
  with assms show ?thesis
    by (auto simp: resolveDeps_def split: prod.splits option.splits)
qed

lemma resolveDeps_keys:
  assumes "resolveDeps le installed current user = Inr (res, logs)"
  shows "fst ` set res = fst ` set user"
  unfolding resolveDeps_result [OF assms] by (simp add: keys_sorted_obj keys_foldl_obj_set)

lemma resolveDeps_order:
  assumes total: "\<And>x y. le x y \<or> le y x"
    and trans: "\<And>x y z. le x y \<Longrightarrow> le y z \<Longrightarrow> le x z"
    and res: "resolveDeps le installed current user = Inr (res, logs)"
  shows "distinct (map fst res)"
    and "sorted_wrt le (filter (\<lambda>k. \<not> is_array_index k) (map fst res))"
    and "map fst res = filter is_array_index (map fst res)
                        @ filter (\<lambda>k. \<not> is_array_index k) (map fst res)"
    and "sorted_wrt (\<lambda>a b. the (array_index a) < the (array_index b))
           (filter is_array_index (map fst res))"
proof -
  let ?r = "foldl (\<lambda>result (n, u). obj_set result n (desiredVersion installed n u)) [] user"
  note r = resolveDeps_result [OF res]
  have d: "distinct (map fst ?r)" by (rule distinct_foldl_obj_set) simp
  have w: "wf_obj res" unfolding r by (rule wf_sorted_obj)
  show "distinct (map fst res)" using w by (rule wf_obj_distinct)
  show "sorted_wrt le (filter (\<lambda>k. \<not> is_array_index k) (map fst res))"
    unfolding r by (rule sorted_wrt_nonindex_sorted_obj [of le, OF total trans d])
  from wf_obj_split [OF w]
  have "map fst res = map fst (filter (\<lambda>e. is_array_index (fst e)) res
                                 @ filter (\<lambda>e. \<not> is_array_index (fst e)) res)"
    by simp
  then show "map fst res = filter is_array_index (map fst res)
                        @ filter (\<lambda>k. \<not> is_array_index k) (map fst res)"
    by (simp add: filter_map comp_def)
  show "sorted_wrt (\<lambda>a b. the (array_index a) < the (array_index b))
           (filter is_array_index (map fst res))"
    using w by (rule wf_obj_index_sorted)
qed

lemma resolveDeps_sorted:
  assumes total: "\<And>x y. le x y \<or> le y x"
    and trans: "\<And>x y z. le x y \<Longrightarrow> le y z \<Longrightarrow> le x z"
    and res: "resolveDeps le installed current user = Inr (res, logs)"
    and noidx: "list_all (\<lambda>k. \<not> is_array_index k) (map fst user)"
  shows "sorted_wrt le (map fst res)"
proof -
  let ?r = "foldl (\<lambda>result (n, u). obj_set result n (desiredVersion installed n u)) [] user"
  note r = resolveDeps_result [OF res]
  have d: "distinct (map fst ?r)" by (rule distinct_foldl_obj_set) simp
  have "fst ` set ?r = fst ` set user" by (simp add: keys_foldl_obj_set)
  with noidx have "list_all (\<lambda>k. \<not> is_array_index k) (map fst ?r)"
    by (auto simp: list_all_iff)
  from sorted_obj_no_index [OF d this, of le] show ?thesis
    unfolding r using sorted_sort_by [of le ?r, OF total trans] by simp
qed

lemma resolveDeps_step_no_warn:
  "filter is_warn (snd acc) = [] \<Longrightarrow> filter is_warn (snd (resolveDeps_step installed acc e)) = []"
  by (cases acc; cases e) (auto simp: resolveDeps_step_def Let_def desiredVersion_nonempty)

lemma resolveDeps_loop_no_warn:
  "filter is_warn (snd acc) = [] \<Longrightarrow>
   filter is_warn (snd (foldl (resolveDeps_step installed) acc user)) = []"
  by (induction user arbitrary: acc) (simp_all add: resolveDeps_step_no_warn)

lemma filter_is_warn_Verbose: "filter is_warn (map (\<lambda>n. Verbose (f n)) xs) = []"
  by (induction xs) simp_all

lemma resolveDeps_no_warn:
  "resolveDeps le installed current user = Inr (res, logs) \<Longrightarrow> filter is_warn logs = []"
  using resolveDeps_loop_no_warn [of "([], [])" installed user]
  by (auto simp: resolveDeps_def filter_is_warn_Verbose split: prod.splits option.splits)

subsection \<open>Keywords\<close>

lemma set_foldl_set_add: "set (foldl set_add s ks) = set s \<union> set ks"
  by (induction ks arbitrary: s) (auto simp: set_add_def)

lemma distinct_foldl_set_add: "distinct s \<Longrightarrow> distinct (foldl set_add s ks)"
  by (induction ks arbitrary: s) (auto simp: set_add_def)

lemma keywordSet_calls:
  "keywordSet (foldl addKeywords st calls) = foldl set_add (keywordSet st) (concat calls)"
  by (induction calls arbitrary: st) (simp_all add: addKeywords_def)

lemma renderKeywords_calls:
  assumes "distinct (keywordSet st)"
  shows "renderKeywords (foldl addKeywords st calls)
           = sorted_list_of_set (set (keywordSet st) \<union> set (concat calls))"
proof -
  let ?ks = "foldl set_add (keywordSet st) (concat calls)"
  have "distinct ?ks" using assms by (rule distinct_foldl_set_add)
  then have "sort ?ks = sorted_list_of_set (set ?ks)"
    by (simp add: sorted_list_of_set_sort_remdups distinct_remdups_id)
  then show ?thesis
    by (simp add: renderKeywords_def keywordSet_calls set_foldl_set_add)
qed

text \<open>
  C10: whatever the sequence of \<^verbatim>\<open>addKeywords\<close> calls, the rendered keyword list is
  strictly ascending (so every keyword occurs once) and holds exactly the keywords
  added; two sequences of calls that add the same keywords, in any order and with any
  repetition, render the same list.
\<close>

theorem keywords_sorted_dedup:
  assumes "distinct (keywordSet st)"
  shows "sorted_wrt (<) (renderKeywords (foldl addKeywords st calls))
       \<and> set (renderKeywords (foldl addKeywords st calls))
           = set (keywordSet st) \<union> set (concat calls)
       \<and> (\<forall>calls'. set (concat calls') = set (concat calls) \<longrightarrow>
            renderKeywords (foldl addKeywords st calls')
              = renderKeywords (foldl addKeywords st calls))"
proof -
  have fin: "finite (set (keywordSet st) \<union> set (concat calls))" by simp
  show ?thesis
    unfolding renderKeywords_calls [OF assms]
    using fin by (simp add: strict_sorted_iff del: set_concat)
qed

theorem keywords_sorted_dedup_witness:
  "distinct (keywordSet new_NpmPackage)
   \<and> renderKeywords (foldl addKeywords new_NpmPackage [[''b'', ''a''], [''b'', ''c'']])
       = [''a'', ''b'', ''c'']
   \<and> renderKeywords (foldl addKeywords new_NpmPackage [[''c'', ''b''], [''a''], [''c'']])
       = renderKeywords (foldl addKeywords new_NpmPackage [[''b'', ''a''], [''b'', ''c'']])"
proof -
  have d: "distinct (keywordSet new_NpmPackage)" by (simp add: new_NpmPackage_def)
  have e: "set (concat [[''c'', ''b''], [''a''], [''c'']])
             = set (concat [[''b'', ''a''], [''b'', ''c'']])"
    by auto
  have v: "renderKeywords (foldl addKeywords new_NpmPackage [[''b'', ''a''], [''b'', ''c'']])
             = [''a'', ''b'', ''c'']"
    by code_simp
  from keywords_sorted_dedup [OF d, of "[[''b'', ''a''], [''b'', ''c'']]"] e d v
  show ?thesis by blast
qed

subsection \<open>The guard on library dependencies\<close>

text \<open>
  C9: when \<^verbatim>\<open>allowLibraryDependencies\<close> is false, \<^verbatim>\<open>addPeerDeps\<close> and
  \<^verbatim>\<open>addBundledDeps\<close> raise exactly when they are given at least one dependency, and
  with none they return the state unchanged; \<^verbatim>\<open>addDeps\<close> and \<^verbatim>\<open>addDevDeps\<close> have no
  such check and record every dependency they are given.
\<close>

theorem library_dependency_guard:
  assumes "\<not> allowLibraryDependencies st"
  shows "(isl (addPeerDeps st ds) \<longleftrightarrow> ds \<noteq> [])
       \<and> (isl (addBundledDeps st ds) \<longleftrightarrow> ds \<noteq> [])
       \<and> addPeerDeps st [] = Inr st
       \<and> addBundledDeps st [] = Inr st
       \<and> deps (addDeps st ds) = foldl (\<lambda>l dep. addDependency l dep RUNTIME) (deps st) ds
       \<and> deps (addDevDeps st ds) = foldl (\<lambda>l dep. addDependency l dep BUILD) (deps st) ds"
  using assms by (simp add: addPeerDeps_def addBundledDeps_def addDeps_def addDevDeps_def)

theorem library_dependency_guard_witness:
  "\<not> allowLibraryDependencies (new_NpmPackage\<lparr>allowLibraryDependencies := False\<rparr>)
   \<and> isl (addPeerDeps (new_NpmPackage\<lparr>allowLibraryDependencies := False\<rparr>) [''react@^16''])
   \<and> isl (addBundledDeps (new_NpmPackage\<lparr>allowLibraryDependencies := False\<rparr>) [''react@^16''])
   \<and> deps (addDeps (new_NpmPackage\<lparr>allowLibraryDependencies := False\<rparr>) [''react@^16''])
       = [\<lparr>name = ''react'', version = Some ''^16'', type = RUNTIME\<rparr>]"
proof -
  let ?st = "new_NpmPackage\<lparr>allowLibraryDependencies := False\<rparr>"
  have a: "\<not> allowLibraryDependencies ?st" by simp
  have p: "addDependency [] ''react@^16'' RUNTIME
             = [\<lparr>name = ''react'', version = Some ''^16'', type = RUNTIME\<rparr>]"
    by (simp add: addDependency_def parseDependency_def)
  have d: "deps ?st = []" by (simp add: new_NpmPackage_def)
  from library_dependency_guard [OF a, of "[''react@^16'']"] a p d
  show ?thesis by simp
qed

subsection \<open>Sorted output of the post-install resolution\<close>

lemma index_9: "array_index ''9'' = Some 9"
  by (simp add: array_index_def decimal_def digit_value_def is_digit_def)

lemma index_10: "array_index ''10'' = Some 10"
  by (simp add: array_index_def decimal_def digit_value_def is_digit_def)

lemma obj_set_9_10: "obj_set [(''10'', v)] ''9'' u = [(''9'', u), (''10'', v)]"
  by (simp add: obj_set_def key_before_def index_9 index_10)

lemma obj_set_10_9: "obj_set [(''9'', u)] ''10'' v = [(''9'', u), (''10'', v)]"
  by (simp add: obj_set_def key_before_def index_9 index_10)

lemma not_le_9_10: "\<not> (''9'' :: string) \<le> ''10''"
  by code_simp

text \<open>
  C5 (as amended): the three dependency maps that \<^verbatim>\<open>resolveDepsAndWritePackageJson\<close>
  writes are the results of \<^verbatim>\<open>resolveDeps\<close> on the rendered maps, and every map \<open>res\<close>
  that \<^verbatim>\<open>resolveDeps\<close> returns for a rendered map \<open>user\<close> has the keys of \<open>user\<close>, each
  once, in this order: its keys that are not array indices are ascending in the order of
  the comparison, in whatever order they were added; its keys that are array indices
  (canonical decimal numerals below \<open>2^32 - 1\<close>) stand before all others, ascending by
  numeric value, which is how a JavaScript object enumerates them. When no key of
  \<open>user\<close> is an array index, \<open>res\<close> is sorted by key. The comparison is only required to
  be total and transitive, as \<^verbatim>\<open>localeCompare\<close> is.
\<close>

theorem resolved_maps_sorted_by_key:
  assumes total: "\<forall>x y. le x y \<or> le y x"
    and trans: "\<forall>x y z. le x y \<longrightarrow> le y z \<longrightarrow> le x z"
    and res: "resolveDepsAndWritePackageJson le installed pkg st = Inr (pkg', logs)"
    and rendered: "renderedDeps st = Some nd"
  shows "(\<exists>run dev peer log1 log2 log3.
            pkg_dependencies pkg' = Some run \<and> pkg_devDependencies pkg' = Some dev
          \<and> pkg_peerDependencies pkg' = Some peer
          \<and> resolveDeps le installed (pkg_dependencies pkg) (dependencies nd) = Inr (run, log1)
          \<and> resolveDeps le installed (pkg_devDependencies pkg) (devDependencies nd)
              = Inr (dev, log2)
          \<and> resolveDeps le installed (pkg_peerDependencies pkg) (peerDependencies nd)
              = Inr (peer, log3))
       \<and> (resolveDeps le installed current user = Inr (res, rlogs) \<longrightarrow>
            fst ` set res = fst ` set user
          \<and> distinct (map fst res)
          \<and> sorted_wrt le (filter (\<lambda>k. \<not> is_array_index k) (map fst res))
          \<and> map fst res = filter is_array_index (map fst res)
                            @ filter (\<lambda>k. \<not> is_array_index k) (map fst res)
          \<and> sorted_wrt (\<lambda>a b. the (array_index a) < the (array_index b))
                (filter is_array_index (map fst res))
          \<and> (list_all (\<lambda>k. \<not> is_array_index k) (map fst user) \<longrightarrow>
                sorted_wrt le (map fst res)))"
proof (intro conjI impI)
  from res rendered obtain run log1 dev log2 peer log3 where
    r1: "resolveDeps le installed (pkg_dependencies pkg) (dependencies nd) = Inr (run, log1)" and
    r2: "resolveDeps le installed (pkg_devDependencies pkg) (devDependencies nd) = Inr (dev, log2)" and
    r3: "resolveDeps le installed (pkg_peerDependencies pkg) (peerDependencies nd) = Inr (peer, log3)" and
    p: "pkg' = pkg\<lparr>pkg_dependencies := Some run, pkg_devDependencies := Some dev,
                   pkg_peerDependencies := Some peer\<rparr>"
    by (auto simp: resolveDepsAndWritePackageJson_def split: sum.splits prod.splits)
  then show "\<exists>run dev peer log1 log2 log3.
            pkg_dependencies pkg' = Some run \<and> pkg_devDependencies pkg' = Some dev
          \<and> pkg_peerDependencies pkg' = Some peer
          \<and> resolveDeps le installed (pkg_dependencies pkg) (dependencies nd) = Inr (run, log1)
          \<and> resolveDeps le installed (pkg_devDependencies pkg) (devDependencies nd)
              = Inr (dev, log2)
          \<and> resolveDeps le installed (pkg_peerDependencies pkg) (peerDependencies nd)
              = Inr (peer, log3)"
    by simp
next
  assume r: "resolveDeps le installed current user = Inr (res, rlogs)"
  have total: "le x y \<or> le y x" for x y using total by blast
  have trans: "le x y \<Longrightarrow> le y z \<Longrightarrow> le x z" for x y z using trans by blast
  note o = resolveDeps_order [of le, OF total trans r]
  show "fst ` set res = fst ` set user" by (rule resolveDeps_keys [OF r])
  show "distinct (map fst res)" by (rule o(1))
  show "sorted_wrt le (filter (\<lambda>k. \<not> is_array_index k) (map fst res))" by (rule o(2))
  show "map fst res = filter is_array_index (map fst res)
                            @ filter (\<lambda>k. \<not> is_array_index k) (map fst res)" by (rule o(3))
  show "sorted_wrt (\<lambda>a b. the (array_index a) < the (array_index b))
                (filter is_array_index (map fst res))" by (rule o(4))
  show "sorted_wrt le (map fst res)"
    if "list_all (\<lambda>k. \<not> is_array_index k) (map fst user)"
    using resolveDeps_sorted [of le, OF total trans r that] .
qed

theorem resolved_maps_sorted_by_key_witness:
  "resolveDepsAndWritePackageJson (\<le>) nothing_installed
     \<lparr>pkg_dependencies = Some [(''zeta'', ''*''), (''alpha'', ''^1'')],
      pkg_devDependencies = Some [], pkg_peerDependencies = Some [],
      pkg_scripts = Some []\<rparr>
     (new_NpmPackage\<lparr>renderedDeps :=
        Some \<lparr>dependencies = [(''zeta'', ''*''), (''alpha'', ''^1'')],
              devDependencies = [], peerDependencies = []\<rparr>\<rparr>)
   = Inr (\<lparr>pkg_dependencies = Some [(''alpha'', ''^1''), (''zeta'', ''*'')],
           pkg_devDependencies = Some [], pkg_peerDependencies = Some [],
      pkg_scripts = Some []\<rparr>, [])
   \<and> list_all (\<lambda>k. \<not> is_array_index k) (map fst [(''zeta'', ''*''), (''alpha'', ''^1'')])
   \<and> sorted_wrt (\<le>) (map fst [(''alpha'', ''^1''), (''zeta'', ''*'')])"
proof -
  let ?user = "[(''zeta'', ''*''), (''alpha'', ''^1'')]"
  let ?pkg = "\<lparr>pkg_dependencies = Some ?user,
      pkg_devDependencies = Some [], pkg_peerDependencies = Some [],
      pkg_scripts = Some []\<rparr>"
  let ?nd = "\<lparr>dependencies = ?user, devDependencies = [], peerDependencies = []\<rparr>"
  let ?st = "new_NpmPackage\<lparr>renderedDeps := Some ?nd\<rparr>"
  let ?pkg' = "\<lparr>pkg_dependencies = Some [(''alpha'', ''^1''), (''zeta'', ''*'')],
           pkg_devDependencies = Some [], pkg_peerDependencies = Some [],
      pkg_scripts = Some []\<rparr>"
  have total: "\<forall>x y :: string. x \<le> y \<or> y \<le> x" by (simp add: linear)
  have trans: "\<forall>x y z :: string. x \<le> y \<longrightarrow> y \<le> z \<longrightarrow> x \<le> z" by auto
  have rendered: "renderedDeps ?st = Some ?nd" by simp
  have le: "\<not> (''zeta'' \<le> ''alpha'')" by code_simp
  have one: "resolveDeps (\<le>) nothing_installed (Some ?user) ?user
               = Inr ([(''alpha'', ''^1''), (''zeta'', ''*'')], [])"
    using le
    by (simp add: resolveDeps_def resolveDeps_step_def
        desiredVersion_def nothing_installed_def sorted_obj_def sort_by_def obj_get_def truthy_def
        obj_set_eval)
  have none: "resolveDeps (\<le>) nothing_installed (Some []) [] = Inr ([], [])"
    by (simp add: resolveDeps_def sorted_obj_def sort_by_def)
  have res: "resolveDepsAndWritePackageJson (\<le>) nothing_installed ?pkg ?st = Inr (?pkg', [])"
    by (simp add: resolveDepsAndWritePackageJson_def one none)
  have idx: "list_all (\<lambda>k. \<not> is_array_index k) (map fst ?user)"
    by (simp add: is_array_index_def obj_set_eval)
  from resolved_maps_sorted_by_key [where le = "(\<le>)" and current = "Some ?user"
      and user = ?user and res = "[(''alpha'', ''^1''), (''zeta'', ''*'')]" and rlogs = "[]",
      OF total trans res rendered] one idx
  have "sorted_wrt (\<le>) (map fst [(''alpha'', ''^1''), (''zeta'', ''*'')])" by blast
  with res idx show ?thesis by blast
qed

text \<open>
  C5 as stated fails for names that are array indices: with the rendered runtime map
  \<open>9: ^1, 10: ^2\<close> the comparison puts \<open>10\<close> before \<open>9\<close>, but the object that
  \<^verbatim>\<open>sorted\<close> fills enumerates \<open>9\<close> first, so the map written is \<open>9, 10\<close>, which is not
  ascending in the order of the comparison.
\<close>

theorem array_index_keys_counterexample:
  "resolveDepsAndWritePackageJson (\<le>) nothing_installed
     \<lparr>pkg_dependencies = Some [(''9'', ''^1''), (''10'', ''^2'')],
      pkg_devDependencies = Some [], pkg_peerDependencies = Some [],
      pkg_scripts = Some []\<rparr>
     (new_NpmPackage\<lparr>renderedDeps :=
        Some \<lparr>dependencies = [(''9'', ''^1''), (''10'', ''^2'')],
              devDependencies = [], peerDependencies = []\<rparr>\<rparr>)
   = Inr (\<lparr>pkg_dependencies = Some [(''9'', ''^1''), (''10'', ''^2'')],
           pkg_devDependencies = Some [], pkg_peerDependencies = Some [],
      pkg_scripts = Some []\<rparr>, [])
   \<and> sort_by (\<le>) [(''9'', ''^1''), (''10'', ''^2'')] = [(''10'', ''^2''), (''9'', ''^1'')]
   \<and> \<not> sorted_wrt (\<le>) (map fst [(''9'', ''^1''), (''10'', ''^2'')])"
proof -
  let ?user = "[(''9'', ''^1''), (''10'', ''^2'')]"
  have srt: "sort_by (\<le>) ?user = [(''10'', ''^2''), (''9'', ''^1'')]"
    using not_le_9_10 by (simp add: sort_by_def)
  have one: "resolveDeps (\<le>) nothing_installed (Some ?user) ?user = Inr (?user, [])"
    by (simp add: resolveDeps_def resolveDeps_step_def desiredVersion_def nothing_installed_def
        sorted_obj_def srt obj_get_def truthy_def obj_set_Nil obj_set_9_10 obj_set_10_9)
  have none: "resolveDeps (\<le>) nothing_installed (Some []) [] = Inr ([], [])"
    by (simp add: resolveDeps_def sorted_obj_def sort_by_def)
  show ?thesis
    using not_le_9_10 by (simp add: resolveDepsAndWritePackageJson_def one none srt)
qed

subsection \<open>Unresolved wildcards\<close>

text \<open>
  C6: a wildcard dependency whose installed version cannot be looked up stays \<open>*\<close> and
  the run goes on, but no warning is logged: \<^verbatim>\<open>desiredVersion\<close> starts out as the
  current definition, so the test \<^verbatim>\<open>!desiredVersion\<close> that guards the warning never
  holds. The first conjunct runs \<^verbatim>\<open>resolveDeps\<close> on \<open>foo: *\<close> with nothing installed;
  the second shows the rewriting to the caret range of the installed version; the third
  says that no run of \<^verbatim>\<open>resolveDeps\<close> logs a warning.
\<close>

theorem unresolved_wildcard_not_warned:
  "resolveDeps (\<le>) nothing_installed (Some [(''foo'', ''*'')]) [(''foo'', ''*'')]
     = Inr ([(''foo'', ''*'')], [])
   \<and> resolveDeps (\<le>) leftpad_installed (Some [(''left-pad'', ''*'')]) [(''left-pad'', ''*'')]
     = Inr ([(''left-pad'', ''^1.3.0'')], [Verbose ''left-pad: * => ^1.3.0''])
   \<and> (case resolveDeps le installed current user of
         Inl e \<Rightarrow> True
       | Inr (res, logs) \<Rightarrow> filter is_warn logs = [])"
proof -
  have "resolveDeps (\<le>) nothing_installed (Some [(''foo'', ''*'')]) [(''foo'', ''*'')]
          = Inr ([(''foo'', ''*'')], [])"
    by (simp add: resolveDeps_def resolveDeps_step_def desiredVersion_def nothing_installed_def
        sorted_obj_def sort_by_def obj_get_def truthy_def obj_set_eval)
  moreover have "resolveDeps (\<le>) leftpad_installed (Some [(''left-pad'', ''*'')])
       [(''left-pad'', ''*'')]
     = Inr ([(''left-pad'', ''^1.3.0'')], [Verbose ''left-pad: * => ^1.3.0''])"
    by (simp add: resolveDeps_def resolveDeps_step_def desiredVersion_def leftpad_installed_def
        sorted_obj_def sort_by_def obj_get_def truthy_def Let_def obj_set_eval)
  moreover have "case resolveDeps le installed current user of
         Inl e \<Rightarrow> True
       | Inr (res, logs) \<Rightarrow> filter is_warn logs = []"
    by (auto split: sum.splits dest: resolveDeps_no_warn)
  ultimately show ?thesis by blast
qed

subsection \<open>Task invocations\<close>

text \<open>
  C7 (as amended): in mode \<^verbatim>\<open>projen\<close> both \<^verbatim>\<open>npmScriptForTask\<close> and
  \<^verbatim>\<open>runTaskCommand\<close> give the projen command followed by the task name; in mode
  \<^verbatim>\<open>shell\<close> \<^verbatim>\<open>npmScriptForTask\<close> gives the task's own shell command, while
  \<^verbatim>\<open>runTaskCommand\<close> gives the run-script command of the package manager followed by
  the task name; in any other mode both raise the configuration error.
\<close>

theorem task_invocation_modes:
  "(npmTaskExecution (npmPackage pr) = ''projen'' \<longrightarrow>
      npmScriptForTask (npmPackage pr) task
        = Inr (projenCommand (npmPackage pr) @ '' '' @ task_name task)
    \<and> runTaskCommand pr task
        = Inr (projenCommand (npmPackage pr) @ '' '' @ task_name task))
 \<and> (npmTaskExecution (npmPackage pr) = ''shell'' \<longrightarrow>
      npmScriptForTask (npmPackage pr) task = toShellCommand task
    \<and> runTaskCommand pr task = Inr (runScriptCommand pr @ '' '' @ task_name task))
 \<and> (npmTaskExecution (npmPackage pr) \<noteq> ''projen''
      \<and> npmTaskExecution (npmPackage pr) \<noteq> ''shell'' \<longrightarrow>
      npmScriptForTask (npmPackage pr) task
        = Inl (ConfigurationError (npmTaskExecution (npmPackage pr)))
    \<and> runTaskCommand pr task
        = Inl (ConfigurationError (npmTaskExecution (npmPackage pr))))"
  by (simp add: npmScriptForTask_def runTaskCommand_def)

theorem task_invocation_modes_witness:
  "npmScriptForTask new_NpmPackage \<lparr>task_name = ''build'', toShellCommand = Inr ''tsc''\<rparr>
     = Inr ''npx projen build''
   \<and> runTaskCommand \<lparr>npmPackage = new_NpmPackage, runScriptCommand = ''yarn run''\<rparr>
       \<lparr>task_name = ''build'', toShellCommand = Inr ''tsc''\<rparr>
     = Inr ''npx projen build''
   \<and> npmScriptForTask (new_NpmPackage\<lparr>npmTaskExecution := ''shell''\<rparr>)
       \<lparr>task_name = ''build'', toShellCommand = Inr ''tsc''\<rparr>
     = Inr ''tsc''
   \<and> runTaskCommand
       \<lparr>npmPackage = new_NpmPackage\<lparr>npmTaskExecution := ''shell''\<rparr>, runScriptCommand = ''yarn run''\<rparr>
       \<lparr>task_name = ''build'', toShellCommand = Inr ''tsc''\<rparr>
     = Inr ''yarn run build''
   \<and> npmScriptForTask (new_NpmPackage\<lparr>npmTaskExecution := ''make''\<rparr>)
       \<lparr>task_name = ''build'', toShellCommand = Inr ''tsc''\<rparr>
     = Inl (ConfigurationError ''make'')
   \<and> runTaskCommand
       \<lparr>npmPackage = new_NpmPackage\<lparr>npmTaskExecution := ''make''\<rparr>, runScriptCommand = ''yarn run''\<rparr>
       \<lparr>task_name = ''build'', toShellCommand = Inr ''tsc''\<rparr>
     = Inl (ConfigurationError ''make'')"
proof -
  let ?t = "\<lparr>task_name = ''build'', toShellCommand = Inr ''tsc''\<rparr>"
  have m: "npmTaskExecution new_NpmPackage = ''projen''"
    and c: "projenCommand new_NpmPackage = ''npx projen''"
    by (simp_all add: new_NpmPackage_def)
  from task_invocation_modes
         [of "\<lparr>npmPackage = new_NpmPackage, runScriptCommand = ''yarn run''\<rparr>" ?t]
       task_invocation_modes
         [of "\<lparr>npmPackage = new_NpmPackage\<lparr>npmTaskExecution := ''shell''\<rparr>,
              runScriptCommand = ''yarn run''\<rparr>" ?t]
       task_invocation_modes
         [of "\<lparr>npmPackage = new_NpmPackage\<lparr>npmTaskExecution := ''make''\<rparr>,
              runScriptCommand = ''yarn run''\<rparr>" ?t]
       m c
  show ?thesis by simp
qed

text \<open>
  C7 as stated fails for \<^verbatim>\<open>runTaskCommand\<close>: in mode \<^verbatim>\<open>shell\<close>, for the task
  \<open>build\<close> whose shell command is \<open>tsc\<close>, it gives \<open>yarn run build\<close>.
\<close>

theorem runTaskCommand_shell_counterexample:
  "runTaskCommand
     \<lparr>npmPackage = new_NpmPackage\<lparr>npmTaskExecution := ''shell''\<rparr>, runScriptCommand = ''yarn run''\<rparr>
     \<lparr>task_name = ''build'', toShellCommand = Inr ''tsc''\<rparr>
   = Inr ''yarn run build''
   \<and> runTaskCommand
     \<lparr>npmPackage = new_NpmPackage\<lparr>npmTaskExecution := ''shell''\<rparr>, runScriptCommand = ''yarn run''\<rparr>
     \<lparr>task_name = ''build'', toShellCommand = Inr ''tsc''\<rparr>
   \<noteq> toShellCommand \<lparr>task_name = ''build'', toShellCommand = Inr ''tsc''\<rparr>"
  by (simp add: runTaskCommand_def new_NpmPackage_def)

subsection \<open>The ledger\<close>

lemma upsert_Cons: "upsert (x # xs) d = (if dep_key x = dep_key d then d # xs else x # upsert xs d)"
  by (auto simp: dep_key_def)

lemma keys_upsert: "dep_key ` set (upsert L d) = insert (dep_key d) (dep_key ` set L)"
  by (induction L) (auto simp: dep_key_def)

lemma upsert_mem: "d \<in> set (upsert L d)"
  by (induction L) auto

lemma upsert_other: "x \<in> set L \<Longrightarrow> dep_key x \<noteq> dep_key d \<Longrightarrow> x \<in> set (upsert L d)"
  by (induction L) (auto simp: dep_key_def)

lemma set_upsert_subset: "set (upsert L d) \<subseteq> insert d (set L)"
  by (induction L) auto

lemma distinct_upsert: "distinct (map dep_key L) \<Longrightarrow> distinct (map dep_key (upsert L d))"
proof (induction L)
  case Nil
  then show ?case by simp
next
  case (Cons x xs)
  then show ?case using keys_upsert [of xs d] by (auto simp: dep_key_def image_iff)
qed

lemma filter_upsert:
  "\<not> P (type d) \<Longrightarrow> filter (\<lambda>x. P (type x)) (upsert L d) = filter (\<lambda>x. P (type x)) L"
  by (induction L) auto

lemma upsert_idem: "upsert (upsert L d) d = upsert L d"
  by (induction L) auto

lemma upsert_overwrite: "dep_key e = dep_key d \<Longrightarrow> upsert (upsert L d) e = upsert L e"
  by (induction L) (simp_all add: upsert_Cons del: upsert.simps(2))

lemma upsert_commute:
  "dep_key e \<noteq> dep_key d \<Longrightarrow> dep_key e \<in> dep_key ` set L \<Longrightarrow>
   upsert (upsert L d) e = upsert (upsert L e) d"
proof (induction L)
  case Nil
  then show ?case by simp
next
  case (Cons x xs)
  show ?case
  proof (cases "dep_key x = dep_key d")
    case True
    with Cons.prems(1) have "dep_key x \<noteq> dep_key e" by simp
    with True Cons.prems(1) show ?thesis
      by (simp add: upsert_Cons del: upsert.simps(2))
  next
    case xd: False
    show ?thesis
    proof (cases "dep_key x = dep_key e")
      case True
      with xd Cons.prems(1) show ?thesis
        by (simp add: upsert_Cons del: upsert.simps(2))
    next
      case False
      with Cons.prems(2) have "dep_key e \<in> dep_key ` set xs" by auto
      from Cons.IH [OF Cons.prems(1) this] xd False show ?thesis
        by (simp add: upsert_Cons del: upsert.simps(2))
    qed
  qed
qed

lemma keys_foldl_upsert:
  "dep_key ` set (foldl upsert L ds) = dep_key ` set L \<union> dep_key ` set ds"
  by (induction ds arbitrary: L) (auto simp: keys_upsert)

lemma upsert_absorb:
  "dep_key ` set ds \<subseteq> dep_key ` set L \<Longrightarrow>
   upsert (foldl upsert (upsert L d) ds) d = upsert (foldl upsert L ds) d"
proof (induction ds arbitrary: L)
  case Nil
  show ?case by (simp add: upsert_idem)
next
  case (Cons e es)
  have es: "dep_key ` set es \<subseteq> dep_key ` set (upsert L e)"
    using Cons.prems by (auto simp: keys_upsert)
  show ?case
  proof (cases "dep_key e = dep_key d")
    case True
    then show ?thesis by (simp add: upsert_overwrite)
  next
    case False
    have "dep_key e \<in> dep_key ` set L" using Cons.prems by auto
    with False have "upsert (upsert L d) e = upsert (upsert L e) d"
      by (rule upsert_commute)
    then show ?thesis using Cons.IH [OF es] by simp
  qed
qed

lemma foldl_upsert_idem: "foldl upsert (foldl upsert L ds) ds = foldl upsert L ds"
proof (induction ds rule: rev_induct)
  case Nil
  show ?case by simp
next
  case (snoc d ds)
  let ?M = "foldl upsert L ds"
  have "dep_key ` set ds \<subseteq> dep_key ` set ?M" by (simp add: keys_foldl_upsert)
  then have "upsert (foldl upsert (upsert ?M d) ds) d = upsert (foldl upsert ?M ds) d"
    by (rule upsert_absorb)
  then show ?case by (simp add: snoc.IH)
qed

lemma foldl_upsert_mem:
  "distinct (map dep_key ds) \<Longrightarrow> d \<in> set ds \<Longrightarrow> d \<in> set (foldl upsert L ds)"
proof (induction ds rule: rev_induct)
  case Nil
  then show ?case by simp
next
  case (snoc x ds)
  show ?case
  proof (cases "d = x")
    case True
    then show ?thesis by (simp add: upsert_mem)
  next
    case False
    with snoc.prems have d: "d \<in> set ds" by auto
    with snoc.prems have k: "dep_key d \<noteq> dep_key x" by (auto simp: image_iff)
    from snoc.prems have "distinct (map dep_key ds)" by simp
    from snoc.IH [OF this d] k show ?thesis by (simp add: upsert_other)
  qed
qed

subsection \<open>Parsing a request\<close>

lemma parse_plain: "CHR ''@'' \<notin> set (tl n) \<Longrightarrow> parseDependency n = (n, None)"
  by (cases n) (simp_all add: parseDependency_def)

lemma parse_pinned:
  assumes "n \<noteq> []" and "CHR ''@'' \<notin> set ver"
  shows "parseDependency (n @ ''@'' @ ver) = (n, Some ver)"
proof -
  obtain c rest where n: "n = c # rest" using assms(1) by (cases n) auto
  have r: "rev (rest @ CHR ''@'' # ver) = rev ver @ CHR ''@'' # rev rest" by simp
  have t: "takeWhile (\<lambda>x. x \<noteq> CHR ''@'') (rev ver @ CHR ''@'' # rev rest) = rev ver"
    using assms(2) by (auto simp: takeWhile_tail)
  have d: "dropWhile (\<lambda>x. x \<noteq> CHR ''@'') (rev ver @ CHR ''@'' # rev rest) = CHR ''@'' # rev rest"
    using assms(2) by (auto simp: dropWhile_append3)
  show ?thesis unfolding n parseDependency_def
    using t d by (simp del: rev_append add: r)
qed

subsection \<open>The pinning loop\<close>

lemma addDevDeps_single: "addDevDeps st [req] = st\<lparr>deps := upsert (deps st) (pinnedDep req)\<rparr>"
  by (simp add: addDevDeps_def addDependency_def pinnedDep_def split: prod.splits)

lemma pinPeers_total:
  "map (pinnedRequest mv) peers = map Inr reqs \<Longrightarrow>
   pinPeers mv peers st = Inr (st\<lparr>deps := foldl upsert (deps st) (map pinnedDep reqs)\<rparr>)"
proof (induction peers arbitrary: reqs st)
  case Nil
  then show ?case by simp
next
  case (Cons d peers)
  then obtain r rs where reqs: "reqs = r # rs" and r: "pinnedRequest mv d = Inr r"
    and rs: "map (pinnedRequest mv) peers = map Inr rs" by (cases reqs) auto
  show ?case by (simp add: r reqs Cons.IH [OF rs] addDevDeps_single)
qed

lemma pinPeers_Inr:
  "pinPeers mv peers st = Inr st' \<Longrightarrow>
   \<exists>reqs. map (pinnedRequest mv) peers = map Inr reqs
         \<and> st' = st\<lparr>deps := foldl upsert (deps st) (map pinnedDep reqs)\<rparr>"
proof (induction peers arbitrary: st)
  case Nil
  then show ?case by simp
next
  case (Cons d peers)
  from Cons.prems obtain r where r: "pinnedRequest mv d = Inr r"
    and rest: "pinPeers mv peers (addDevDeps st [r]) = Inr st'"
    by (auto split: sum.splits)
  from Cons.IH [OF rest] obtain rs where rs: "map (pinnedRequest mv) peers = map Inr rs"
    and st': "st' = (addDevDeps st [r])\<lparr>deps := foldl upsert (deps (addDevDeps st [r])) (map pinnedDep rs)\<rparr>"
    by blast
  have "map (pinnedRequest mv) (d # peers) = map Inr (r # rs)" using r rs by simp
  moreover have "st' = st\<lparr>deps := foldl upsert (deps st) (map pinnedDep (r # rs))\<rparr>"
    using st' by (simp add: addDevDeps_single)
  ultimately show ?case by blast
qed

lemma pinnedRequest_Inl:
  "pinnedRequest mv d = Inl e \<Longrightarrow> (\<exists>n v. e = ResolutionError n v) \<or> (\<exists>r. e = SemverTypeError r)"
  by (auto simp: pinnedRequest_def split: option.splits if_splits minVersion_result.splits)

lemma pinnedRequest_Inl_parsed:
  assumes "pinnedRequest mv d = Inl e"
    and "\<And>r. version d = Some r \<Longrightarrow> mv r \<noteq> InvalidRange"
  shows "\<exists>n v. e = ResolutionError n v"
  using assms
  by (auto simp: pinnedRequest_def split: option.splits if_splits minVersion_result.splits)

lemma pinPeers_first:
  "pinPeers mv peers st = Inl e \<longleftrightarrow>
   (\<exists>q. List.find (\<lambda>q. isl (pinnedRequest mv q)) peers = Some q \<and> pinnedRequest mv q = Inl e)"
proof (induction peers arbitrary: st)
  case Nil
  then show ?case by simp
next
  case (Cons x peers)
  show ?case
  proof (cases "pinnedRequest mv x")
    case (Inl e')
    then show ?thesis by auto
  next
    case (Inr r)
    then show ?thesis using Cons.IH [of "addDevDeps st [r]"] by simp
  qed
qed

lemma pinPhase_Inl:
  "pinPhase mv st = Inl e \<longleftrightarrow>
   pinnedDevDependency st \<noteq> Some False
   \<and> (\<exists>q. firstFailingPeer mv (deps st) = Some q \<and> pinnedRequest mv q = Inl e)"
proof (cases "pinnedDevDependency st = Some False")
  case True
  then show ?thesis by (simp add: pinPhase_def)
next
  case False
  then have "pinPhase mv st = pinPeers mv (filter (\<lambda>d. type d = PEER) (deps st)) st"
    by (cases "pinnedDevDependency st") (auto simp: pinPhase_def)
  with False show ?thesis by (simp add: pinPeers_first firstFailingPeer_def)
qed

lemma find_Some_mem: "List.find P xs = Some x \<Longrightarrow> x \<in> set xs \<and> P x"
  by (induction xs) (auto split: if_splits)

lemma firstFailingPeer_Some:
  "firstFailingPeer mv L = Some q \<Longrightarrow> q \<in> set L \<and> type q = PEER \<and> isl (pinnedRequest mv q)"
  unfolding firstFailingPeer_def by (auto dest: find_Some_mem)

lemma firstFailingPeer_exists:
  "d \<in> set L \<Longrightarrow> type d = PEER \<Longrightarrow> isl (pinnedRequest mv d) \<Longrightarrow>
   \<exists>q e. firstFailingPeer mv L = Some q \<and> pinnedRequest mv q = Inl e"
proof -
  assume "d \<in> set L" "type d = PEER" "isl (pinnedRequest mv d)"
  then have "firstFailingPeer mv L \<noteq> None"
    by (auto simp: firstFailingPeer_def find_None_iff)
  then obtain q where q: "firstFailingPeer mv L = Some q" by auto
  from firstFailingPeer_Some [OF q] obtain e where "pinnedRequest mv q = Inl e"
    by (auto simp: isl_def)
  with q show ?thesis by blast
qed

subsection \<open>The loop that fills the buckets\<close>

lemma fillBuckets_Inr:
  "fillBuckets all L (nd, b) = Inr (nd', b') \<Longrightarrow>
     dependencies nd' = fill in_runtime L (dependencies nd)
   \<and> devDependencies nd' = fill in_dev L (devDependencies nd)
   \<and> peerDependencies nd' = fill in_peer L (peerDependencies nd)
   \<and> b' = b @ map name (filter (\<lambda>d. type d = BUNDLED) L)"
proof (induction L arbitrary: nd b)
  case Nil
  then show ?case by (simp add: fill_def)
next
  case (Cons d L)
  show ?case
  proof (cases "type d")
    case RUNTIME
    with Cons.prems Cons.IH show ?thesis
      by (fastforce simp: fill_def in_runtime_def in_dev_def in_peer_def)
  next
    case BUILD
    with Cons.prems Cons.IH show ?thesis
      by (fastforce simp: fill_def in_runtime_def in_dev_def in_peer_def)
  next
    case PEER
    with Cons.prems Cons.IH show ?thesis
      by (fastforce simp: fill_def in_runtime_def in_dev_def in_peer_def)
  next
    case BUNDLED
    with Cons.prems Cons.IH show ?thesis
      by (fastforce simp: fill_def in_runtime_def in_dev_def in_peer_def split: if_splits)
  next
    case TEST
    with Cons.prems Cons.IH show ?thesis
      by (fastforce simp: fill_def in_runtime_def in_dev_def in_peer_def)
  next
    case DEVENV
    with Cons.prems Cons.IH show ?thesis
      by (fastforce simp: fill_def in_runtime_def in_dev_def in_peer_def)
  qed
qed

lemma fillBuckets_Inl_only: "fillBuckets all L acc = Inl e \<Longrightarrow> \<exists>n. e = ConflictError n"
proof (induction L arbitrary: acc)
  case Nil
  then show ?case by simp
next
  case (Cons d L)
  obtain nd b where acc: "acc = (nd, b)" by (cases acc)
  from Cons.prems Cons.IH show ?case unfolding acc
    by (cases "type d") (auto simp: Let_def split: if_splits)
qed

lemma fillBuckets_conflict:
  assumes "d \<in> set L" "type d = BUNDLED" "p \<in> set all" "name p = name d" "type p = PEER"
  shows "\<exists>n. fillBuckets all L acc = Inl (ConflictError n)"
  using assms(1,2)
proof (induction L arbitrary: acc)
  case Nil
  then show ?case by simp
next
  case (Cons x L)
  obtain nd b where acc: "acc = (nd, b)" by (cases acc)
  have found: "List.find (\<lambda>q. name q = name d \<and> type q = PEER) all \<noteq> None"
    using assms(3-5) by (auto simp: find_None_iff)
  show ?case
  proof (cases "x = d")
    case True
    then show ?thesis using found Cons.prems(2) by (simp add: acc)
  next
    case False
    with Cons.prems have "d \<in> set L" by auto
    from Cons.IH [OF this Cons.prems(2)] show ?thesis unfolding acc
      by (cases "type x") (auto simp: Let_def)
  qed
qed

lemma obj_get_fold:
  "obj_get (foldl (\<lambda>ob d. obj_set ob (name d) (versionOrStar d)) ob ds) n
     = (case List.find (\<lambda>d. name d = n) (rev ds) of
          None \<Rightarrow> obj_get ob n
        | Some d \<Rightarrow> Some (versionOrStar d))"
  by (induction ds rule: rev_induct) (auto simp: obj_get_obj_set)

lemma keys_fill: "fst ` set (fill P L ob) = fst ` set ob \<union> name ` {d \<in> set L. P (type d)}"
proof -
  have "fst ` set (foldl (\<lambda>ob d. obj_set ob (name d) (versionOrStar d)) ob ds)
          = fst ` set ob \<union> name ` set ds" for ds
    by (induction ds arbitrary: ob) (auto simp: keys_obj_set)
  then show ?thesis by (auto simp: fill_def)
qed

lemma distinct_fill: "distinct (map fst ob) \<Longrightarrow> distinct (map fst (fill P L ob))"
proof -
  have "distinct (map fst ob) \<Longrightarrow>
        distinct (map fst (foldl (\<lambda>ob d. obj_set ob (name d) (versionOrStar d)) ob ds))" for ds
    by (induction ds arbitrary: ob) (auto simp: distinct_obj_set)
  then show "distinct (map fst ob) \<Longrightarrow> distinct (map fst (fill P L ob))"
    by (simp add: fill_def)
qed

lemma wf_fill: "wf_obj ob \<Longrightarrow> wf_obj (fill P L ob)"
proof -
  have "wf_obj ob \<Longrightarrow>
        wf_obj (foldl (\<lambda>ob d. obj_set ob (name d) (versionOrStar d)) ob ds)" for ds
    by (induction ds arbitrary: ob) (auto simp: wf_obj_obj_set)
  then show "wf_obj ob \<Longrightarrow> wf_obj (fill P L ob)"
    by (simp add: fill_def)
qed

subsection \<open>The loop of readDeps\<close>

lemma readDeps_step_eq:
  "n \<notin> fst ` set pre \<Longrightarrow>
   readDeps_step cur (pre @ (n, u) # xs) (n, u) = pre @ (n, reconciled cur n u) # xs"
  by (auto simp: readDeps_step_def reconciled_def obj_set_middle)

lemma readDeps_loop:
  "distinct (map fst (pre @ xs)) \<Longrightarrow>
   foldl (readDeps_step cur) (pre @ xs) xs = pre @ map (\<lambda>(n, u). (n, reconciled cur n u)) xs"
proof (induction xs arbitrary: pre)
  case Nil
  then show ?case by simp
next
  case (Cons x xs)
  obtain n u where x: "x = (n, u)" by (cases x)
  from Cons.prems x have fresh: "n \<notin> fst ` set pre" by auto
  from Cons.prems x have "distinct (map fst ((pre @ [(n, reconciled cur n u)]) @ xs))" by auto
  from Cons.IH [OF this] show ?case
    by (simp add: x readDeps_step_eq [OF fresh])
qed

lemma readDeps_result:
  "distinct (map fst user) \<Longrightarrow>
   fst (readDeps user cur_opt)
     = map (\<lambda>(n, u). (n, reconciled (case cur_opt of None \<Rightarrow> [] | Some c \<Rightarrow> c) n u)) user"
  using readDeps_loop [of "[]" user] by (simp add: readDeps_def Let_def)

subsection \<open>The stages of renderDependencies\<close>

lemma render_alt:
  "renderDependencies mv pkgfile st =
     (case pinPhase mv st of
        Inl e \<Rightarrow> Inl e
      | Inr st1 \<Rightarrow>
          (case fillBuckets (deps st1) (deps st1) (emptyDeps, []) of
             Inl e \<Rightarrow> Inl e
           | Inr (nd0, bundled) \<Rightarrow>
               Inr (st1\<lparr>manifest_dependencies := dependencies (fst (reconcile pkgfile nd0)),
                        manifest_devDependencies := devDependencies (fst (reconcile pkgfile nd0)),
                        manifest_peerDependencies := peerDependencies (fst (reconcile pkgfile nd0)),
                        manifest_bundledDependencies := bundled\<rparr>,
                    fst (reconcile pkgfile nd0), snd (reconcile pkgfile nd0))))"
  by (auto simp: renderDependencies_def pinPhase_def reconcile_def emptyDeps_def Let_def
      split: sum.splits option.splits prod.splits)

lemma pinPhase_Inr:
  assumes "pinPhase mv st = Inr st1"
  shows "\<exists>reqs. st1 = st\<lparr>deps := foldl upsert (deps st) (map pinnedDep reqs)\<rparr>
           \<and> (pinnedDevDependency st \<noteq> Some False \<longrightarrow>
                map (pinnedRequest mv) (filter (\<lambda>d. type d = PEER) (deps st)) = map Inr reqs)
           \<and> (pinnedDevDependency st = Some False \<longrightarrow> reqs = [])"
proof (cases "pinnedDevDependency st = Some False")
  case True
  with assms have "st1 = st" by (simp add: pinPhase_def)
  with True show ?thesis by (intro exI [of _ "[]"]) simp
next
  case False
  then have "(case pinnedDevDependency st of None \<Rightarrow> True | Some b \<Rightarrow> b)"
    by (cases "pinnedDevDependency st") auto
  with assms have "pinPeers mv (filter (\<lambda>d. type d = PEER) (deps st)) st = Inr st1"
    by (simp add: pinPhase_def)
  from pinPeers_Inr [OF this] False show ?thesis by auto
qed

lemma pinnedDep_type: "type (pinnedDep r) = BUILD"
  by (simp add: pinnedDep_def split: prod.splits)

lemma filter_foldl_upsert:
  "(\<And>d. d \<in> set ds \<Longrightarrow> \<not> P (type d)) \<Longrightarrow>
   filter (\<lambda>x. P (type x)) (foldl upsert L ds) = filter (\<lambda>x. P (type x)) L"
  by (induction ds arbitrary: L) (simp_all add: filter_upsert)

lemma filter_PEER_pinned:
  "filter (\<lambda>x. type x = PEER) (foldl upsert L (map pinnedDep reqs)) = filter (\<lambda>x. type x = PEER) L"
  by (rule filter_foldl_upsert) (auto simp: pinnedDep_type)

lemma pinPhase_idem:
  assumes "pinPhase mv st = Inr st1"
    and t: "deps t = deps st1" "pinnedDevDependency t = pinnedDevDependency st"
  shows "pinPhase mv t = Inr t"
proof -
  from pinPhase_Inr [OF assms(1)] obtain reqs where
    st1: "st1 = st\<lparr>deps := foldl upsert (deps st) (map pinnedDep reqs)\<rparr>" and
    on: "pinnedDevDependency st \<noteq> Some False \<longrightarrow>
           map (pinnedRequest mv) (filter (\<lambda>d. type d = PEER) (deps st)) = map Inr reqs"
    by blast
  show ?thesis
  proof (cases "pinnedDevDependency st = Some False")
    case True
    then show ?thesis by (simp add: pinPhase_def t)
  next
    case False
    then have p: "(case pinnedDevDependency t of None \<Rightarrow> True | Some b \<Rightarrow> b)"
      unfolding t by (cases "pinnedDevDependency st") auto
    have d: "deps t = foldl upsert (deps st) (map pinnedDep reqs)" by (simp add: t st1)
    have "map (pinnedRequest mv) (filter (\<lambda>d. type d = PEER) (deps t)) = map Inr reqs"
      using on False by (simp add: d filter_PEER_pinned)
    from pinPeers_total [OF this, of t]
    have "pinPeers mv (filter (\<lambda>d. type d = PEER) (deps t)) t
            = Inr (t\<lparr>deps := foldl upsert (deps t) (map pinnedDep reqs)\<rparr>)" .
    moreover have "foldl upsert (deps t) (map pinnedDep reqs) = deps t"
      unfolding d by (rule foldl_upsert_idem)
    ultimately show ?thesis using p by (simp add: pinPhase_def)
  qed
qed

lemma render_idem:
  assumes "renderDependencies mv pkgfile st = Inr (st', nd, logs)"
  shows "renderDependencies mv pkgfile (st'\<lparr>renderedDeps := x\<rparr>)
           = Inr (st'\<lparr>renderedDeps := x\<rparr>, nd, logs)"
proof -
  from assms obtain st1 nd0 bundled where
    pin: "pinPhase mv st = Inr st1" and
    fb: "fillBuckets (deps st1) (deps st1) (emptyDeps, []) = Inr (nd0, bundled)" and
    st': "st' = st1\<lparr>manifest_dependencies := dependencies (fst (reconcile pkgfile nd0)),
                        manifest_devDependencies := devDependencies (fst (reconcile pkgfile nd0)),
                        manifest_peerDependencies := peerDependencies (fst (reconcile pkgfile nd0)),
                        manifest_bundledDependencies := bundled\<rparr>" and
    nd: "nd = fst (reconcile pkgfile nd0)" and logs: "logs = snd (reconcile pkgfile nd0)"
    by (auto simp: render_alt split: sum.splits prod.splits)
  let ?t = "st'\<lparr>renderedDeps := x\<rparr>"
  from pinPhase_Inr [OF pin] have pd: "pinnedDevDependency st1 = pinnedDevDependency st" by auto
  have "pinPhase mv ?t = Inr ?t"
    by (rule pinPhase_idem [OF pin]) (simp_all add: st' pd)
  moreover have "deps ?t = deps st1" by (simp add: st')
  ultimately show ?thesis using fb by (simp add: render_alt nd logs st')
qed

subsection \<open>Conflicting roles\<close>

lemma conflictingE:
  assumes "conflicting L"
  obtains b p where "b \<in> set L" "type b = BUNDLED" "p \<in> set L" "type p = PEER" "name p = name b"
  using assms by (auto simp: conflicting_def list_ex_iff)

lemma conflictingI:
  "b \<in> set L \<Longrightarrow> type b = BUNDLED \<Longrightarrow> p \<in> set L \<Longrightarrow> type p = PEER \<Longrightarrow> name p = name b
   \<Longrightarrow> conflicting L"
  by (auto simp: conflicting_def list_ex_iff)

lemma set_filter_type:
  assumes "filter (\<lambda>x. type x = t) L = filter (\<lambda>x. type x = t) M"
    and "x \<in> set L" and "type x = t"
  shows "x \<in> set M"
proof -
  have "x \<in> set (filter (\<lambda>x. type x = t) L)" using assms(2,3) by simp
  then have "x \<in> set (filter (\<lambda>x. type x = t) M)" by (simp only: assms(1))
  then show ?thesis by simp
qed

lemma filter_type_pinned:
  "t \<noteq> BUILD \<Longrightarrow>
   filter (\<lambda>x. type x = t) (foldl upsert L (map pinnedDep reqs)) = filter (\<lambda>x. type x = t) L"
  by (rule filter_foldl_upsert [of _ "\<lambda>u. u = t"]) (auto simp: pinnedDep_type)

lemma conflicting_pinned:
  "conflicting (foldl upsert L (map pinnedDep reqs)) = conflicting L"
proof
  assume "conflicting (foldl upsert L (map pinnedDep reqs))"
  then obtain b p where b: "b \<in> set (foldl upsert L (map pinnedDep reqs))" "type b = BUNDLED"
    and p: "p \<in> set (foldl upsert L (map pinnedDep reqs))" "type p = PEER" "name p = name b"
    by (rule conflictingE)
  have "b \<in> set L"
    by (rule set_filter_type [OF filter_type_pinned b]) simp
  moreover have "p \<in> set L"
    by (rule set_filter_type [OF filter_type_pinned p(1,2)]) simp
  ultimately show "conflicting L" using b(2) p(2,3) by (blast intro: conflictingI)
next
  assume "conflicting L"
  then obtain b p where b: "b \<in> set L" "type b = BUNDLED"
    and p: "p \<in> set L" "type p = PEER" "name p = name b"
    by (rule conflictingE)
  have "b \<in> set (foldl upsert L (map pinnedDep reqs))"
    by (rule set_filter_type [OF filter_type_pinned [symmetric] b]) simp
  moreover have "p \<in> set (foldl upsert L (map pinnedDep reqs))"
    by (rule set_filter_type [OF filter_type_pinned [symmetric] p(1,2)]) simp
  ultimately show "conflicting (foldl upsert L (map pinnedDep reqs))"
    using b(2) p(2,3) by (blast intro: conflictingI)
qed

lemma fillBuckets_conflicting:
  "conflicting L \<Longrightarrow> \<exists>n. fillBuckets L L acc = Inl (ConflictError n)"
  by (erule conflictingE) (rule fillBuckets_conflict)

lemma fillBuckets_ok:
  "(\<And>d. d \<in> set L \<Longrightarrow> type d = BUNDLED \<Longrightarrow>
      List.find (\<lambda>q. name q = name d \<and> type q = PEER) all = None) \<Longrightarrow>
   \<exists>r. fillBuckets all L acc = Inr r"
proof (induction L arbitrary: acc)
  case Nil
  then show ?case by simp
next
  case (Cons x L)
  obtain nd b where acc: "acc = (nd, b)" by (cases acc)
  have rest: "\<exists>r. fillBuckets all L acc' = Inr r" for acc'
    by (rule Cons.IH) (simp add: Cons.prems)
  show ?case unfolding acc
    using rest Cons.prems [of x] by (cases "type x") (simp_all add: Let_def)
qed

lemma fillBuckets_not_conflicting:
  assumes "\<not> conflicting L"
  shows "\<exists>r. fillBuckets L L acc = Inr r"
proof (rule fillBuckets_ok)
  fix d assume d: "d \<in> set L" "type d = BUNDLED"
  show "List.find (\<lambda>q. name q = name d \<and> type q = PEER) L = None"
  proof (rule ccontr)
    assume "List.find (\<lambda>q. name q = name d \<and> type q = PEER) L \<noteq> None"
    then obtain p where "p \<in> set L" "name p = name d" "type p = PEER"
      by (auto simp: find_None_iff)
    with d have "conflicting L" by (auto intro: conflictingI)
    with assms show False by simp
  qed
qed

lemma render_conflict:
  assumes "conflicting (deps st)"
  shows "(\<exists>n. renderDependencies mv pkgfile st = Inl (ConflictError n))
       \<or> (pinnedDevDependency st \<noteq> Some False
          \<and> (\<exists>q e. firstFailingPeer mv (deps st) = Some q \<and> pinnedRequest mv q = Inl e
                 \<and> renderDependencies mv pkgfile st = Inl e
                 \<and> ((\<exists>n v. e = ResolutionError n v) \<or> (\<exists>r. e = SemverTypeError r))))"
proof (cases "pinPhase mv st")
  case (Inr st1)
  from pinPhase_Inr [OF Inr] obtain reqs where
    "st1 = st\<lparr>deps := foldl upsert (deps st) (map pinnedDep reqs)\<rparr>" by blast
  then have "conflicting (deps st1)" using assms by (simp add: conflicting_pinned)
  from fillBuckets_conflicting [OF this] obtain n where
    "fillBuckets (deps st1) (deps st1) (emptyDeps, []) = Inl (ConflictError n)" by blast
  with Inr have "renderDependencies mv pkgfile st = Inl (ConflictError n)"
    by (simp add: render_alt)
  then show ?thesis by blast
next
  case (Inl e)
  then obtain q where on: "pinnedDevDependency st \<noteq> Some False"
    and q: "firstFailingPeer mv (deps st) = Some q" "pinnedRequest mv q = Inl e"
    unfolding pinPhase_Inl by blast
  have "renderDependencies mv pkgfile st = Inl e"
    using Inl by (simp add: render_alt)
  with on q pinnedRequest_Inl [OF q(2)] show ?thesis by blast
qed

subsection \<open>The rendered sections\<close>

lemma reconciled_empty: "reconciled [] n u = u"
  by (simp add: reconciled_def obj_get_def truthy_def)

lemma map_reconciled_empty: "map (\<lambda>(n, u). (n, reconciled [] n u)) ob = ob"
  by (induction ob) (auto simp: reconciled_empty)

lemma obj_get_map:
  "obj_get (map (\<lambda>(n, u). (n, g n u)) ob) k = map_option (g k) (obj_get ob k)"
  by (induction ob) (auto simp: obj_get_def)

lemma keys_map: "map fst (map (\<lambda>(n, u). (n, g n u)) ob) = map fst ob"
  by (induction ob) auto

lemma render_Inr:
  assumes "renderDependencies mv pkgfile st = Inr (st', nd, logs)"
  shows "\<exists>reqs nd0 bundled.
           pinPhase mv st = Inr (st\<lparr>deps := foldl upsert (deps st) (map pinnedDep reqs)\<rparr>)
         \<and> (pinnedDevDependency st \<noteq> Some False \<longrightarrow>
              map (pinnedRequest mv) (filter (\<lambda>d. type d = PEER) (deps st)) = map Inr reqs)
         \<and> (pinnedDevDependency st = Some False \<longrightarrow> reqs = [])
         \<and> deps st' = foldl upsert (deps st) (map pinnedDep reqs)
         \<and> fillBuckets (deps st') (deps st') (emptyDeps, []) = Inr (nd0, bundled)
         \<and> nd = fst (reconcile pkgfile nd0) \<and> logs = snd (reconcile pkgfile nd0)
         \<and> st' = st\<lparr>deps := foldl upsert (deps st) (map pinnedDep reqs),
                     manifest_dependencies := dependencies nd,
                     manifest_devDependencies := devDependencies nd,
                     manifest_peerDependencies := peerDependencies nd,
                     manifest_bundledDependencies := bundled\<rparr>"
proof -
  from assms obtain st1 nd0 bundled where
    pin: "pinPhase mv st = Inr st1" and
    fb: "fillBuckets (deps st1) (deps st1) (emptyDeps, []) = Inr (nd0, bundled)" and
    st': "st' = st1\<lparr>manifest_dependencies := dependencies (fst (reconcile pkgfile nd0)),
                        manifest_devDependencies := devDependencies (fst (reconcile pkgfile nd0)),
                        manifest_peerDependencies := peerDependencies (fst (reconcile pkgfile nd0)),
                        manifest_bundledDependencies := bundled\<rparr>" and
    nd: "nd = fst (reconcile pkgfile nd0)" and logs: "logs = snd (reconcile pkgfile nd0)"
    by (auto simp: render_alt split: sum.splits prod.splits)
  from pinPhase_Inr [OF pin] obtain reqs where
    st1: "st1 = st\<lparr>deps := foldl upsert (deps st) (map pinnedDep reqs)\<rparr>" and
    on: "pinnedDevDependency st \<noteq> Some False \<longrightarrow>
           map (pinnedRequest mv) (filter (\<lambda>d. type d = PEER) (deps st)) = map Inr reqs" and
    off: "pinnedDevDependency st = Some False \<longrightarrow> reqs = []"
    by blast
  have d: "deps st' = foldl upsert (deps st) (map pinnedDep reqs)" by (simp add: st' st1)
  have "fillBuckets (deps st') (deps st') (emptyDeps, []) = Inr (nd0, bundled)"
    using fb by (simp add: st')
  moreover have "st' = st\<lparr>deps := foldl upsert (deps st) (map pinnedDep reqs),
                     manifest_dependencies := dependencies nd,
                     manifest_devDependencies := devDependencies nd,
                     manifest_peerDependencies := peerDependencies nd,
                     manifest_bundledDependencies := bundled\<rparr>"
    by (simp add: st' st1 nd)
  ultimately show ?thesis using pin on off d nd logs unfolding st1 by blast
qed

lemma buckets_fill:
  assumes "fillBuckets all L (emptyDeps, []) = Inr (nd0, bundled)"
  shows "dependencies nd0 = fill in_runtime L []"
    and "devDependencies nd0 = fill in_dev L []"
    and "peerDependencies nd0 = fill in_peer L []"
    and "bundled = map name (filter (\<lambda>d. type d = BUNDLED) L)"
  using fillBuckets_Inr [OF assms] by (simp_all add: emptyDeps_def)

lemma reconcile_sections:
  assumes "distinct (map fst (dependencies nd0))" "distinct (map fst (devDependencies nd0))"
    "distinct (map fst (peerDependencies nd0))"
  shows "dependencies (fst (reconcile pkgfile nd0))
           = map (\<lambda>(n, u). (n, reconciled (priorSection pkg_dependencies pkgfile) n u))
               (dependencies nd0)"
    and "devDependencies (fst (reconcile pkgfile nd0))
           = map (\<lambda>(n, u). (n, reconciled (priorSection pkg_devDependencies pkgfile) n u))
               (devDependencies nd0)"
    and "peerDependencies (fst (reconcile pkgfile nd0))
           = map (\<lambda>(n, u). (n, reconciled (priorSection pkg_peerDependencies pkgfile) n u))
               (peerDependencies nd0)"
  using assms
  by (auto simp: reconcile_def priorSection_def readDeps_result map_reconciled_empty
      split: option.splits)

lemma render_sections:
  assumes "renderDependencies mv pkgfile st = Inr (st', nd, logs)"
  shows "dependencies nd
           = map (\<lambda>(n, u). (n, reconciled (priorSection pkg_dependencies pkgfile) n u))
               (fill in_runtime (deps st') [])"
    and "devDependencies nd
           = map (\<lambda>(n, u). (n, reconciled (priorSection pkg_devDependencies pkgfile) n u))
               (fill in_dev (deps st') [])"
    and "peerDependencies nd
           = map (\<lambda>(n, u). (n, reconciled (priorSection pkg_peerDependencies pkgfile) n u))
               (fill in_peer (deps st') [])"
    and "manifest_bundledDependencies st' = map name (filter (\<lambda>d. type d = BUNDLED) (deps st'))"
proof -
  from render_Inr [OF assms] obtain reqs nd0 bundled where
    fb: "fillBuckets (deps st') (deps st') (emptyDeps, []) = Inr (nd0, bundled)" and
    nd: "nd = fst (reconcile pkgfile nd0)" and
    st': "st' = st\<lparr>deps := foldl upsert (deps st) (map pinnedDep reqs),
                     manifest_dependencies := dependencies nd,
                     manifest_devDependencies := devDependencies nd,
                     manifest_peerDependencies := peerDependencies nd,
                     manifest_bundledDependencies := bundled\<rparr>"
    by blast
  note b = buckets_fill [OF fb]
  have dist: "distinct (map fst (dependencies nd0))" "distinct (map fst (devDependencies nd0))"
    "distinct (map fst (peerDependencies nd0))"
    unfolding b by (simp_all add: distinct_fill)
  note r = reconcile_sections [OF dist, of pkgfile]
  show "dependencies nd
           = map (\<lambda>(n, u). (n, reconciled (priorSection pkg_dependencies pkgfile) n u))
               (fill in_runtime (deps st') [])"
    unfolding nd r b ..
  show "devDependencies nd
           = map (\<lambda>(n, u). (n, reconciled (priorSection pkg_devDependencies pkgfile) n u))
               (fill in_dev (deps st') [])"
    unfolding nd r b ..
  show "peerDependencies nd
           = map (\<lambda>(n, u). (n, reconciled (priorSection pkg_peerDependencies pkgfile) n u))
               (fill in_peer (deps st') [])"
    unfolding nd r b ..
  have "manifest_bundledDependencies st' = bundled" by (subst st') simp
  then show "manifest_bundledDependencies st' = map name (filter (\<lambda>d. type d = BUNDLED) (deps st'))"
    using b(4) by simp
qed

lemma render_success_any_manifest:
  assumes "renderDependencies mv pkgfile st = Inr (st', nd, logs)"
  shows "\<exists>st0 nd0. renderDependencies mv None st = Inr (st0, nd0, []) \<and> deps st0 = deps st'"
proof -
  from assms obtain st1 nd0 bundled where
    pin: "pinPhase mv st = Inr st1" and
    fb: "fillBuckets (deps st1) (deps st1) (emptyDeps, []) = Inr (nd0, bundled)" and
    st': "st' = st1\<lparr>manifest_dependencies := dependencies (fst (reconcile pkgfile nd0)),
                        manifest_devDependencies := devDependencies (fst (reconcile pkgfile nd0)),
                        manifest_peerDependencies := peerDependencies (fst (reconcile pkgfile nd0)),
                        manifest_bundledDependencies := bundled\<rparr>"
    by (auto simp: render_alt split: sum.splits prod.splits)
  have "deps st' = deps st1" by (simp add: st')
  with pin fb show ?thesis by (simp add: render_alt reconcile_def)
qed

lemma keys_map_set: "fst ` set (map (\<lambda>(n, u). (n, g n u)) ob) = fst ` set ob"
  by (induction ob) auto

lemma keys_reconciled_fill:
  "fst ` set (map (\<lambda>(n, u). (n, g n u)) (fill P L [])) = name ` {d \<in> set L. P (type d)}"
  unfolding keys_map_set keys_fill by simp

subsection \<open>Concrete runs\<close>

lemma example_minVersion_no_at: "example_minVersion r = MinVersion ver \<Longrightarrow> CHR ''@'' \<notin> set ver"
  by (auto simp: example_minVersion_def split: if_splits)

lemma scenario_state:
  "scenario = Inr (new_NpmPackage\<lparr>deps :=
       [\<lparr>name = ''left-pad'', version = None, type = RUNTIME\<rparr>,
        \<lparr>name = ''test-lib'', version = Some ''^3'', type = BUILD\<rparr>,
        \<lparr>name = ''react'', version = Some ''^16'', type = PEER\<rparr>]\<rparr>)"
  by (simp add: scenario_def addPeerDeps_def addDevDeps_def addDeps_def addDependency_def
      parseDependency_def new_NpmPackage_def)

lemma scenario_render:
  "renderDependencies example_minVersion None
     (new_NpmPackage\<lparr>deps :=
       [\<lparr>name = ''left-pad'', version = None, type = RUNTIME\<rparr>,
        \<lparr>name = ''test-lib'', version = Some ''^3'', type = BUILD\<rparr>,
        \<lparr>name = ''react'', version = Some ''^16'', type = PEER\<rparr>]\<rparr>)
   = Inr (new_NpmPackage\<lparr>deps :=
       [\<lparr>name = ''left-pad'', version = None, type = RUNTIME\<rparr>,
        \<lparr>name = ''test-lib'', version = Some ''^3'', type = BUILD\<rparr>,
        \<lparr>name = ''react'', version = Some ''^16'', type = PEER\<rparr>,
        \<lparr>name = ''react'', version = Some ''16.0.0'', type = BUILD\<rparr>],
       manifest_dependencies := [(''left-pad'', ''*'')],
       manifest_devDependencies := [(''test-lib'', ''^3''), (''react'', ''16.0.0'')],
       manifest_peerDependencies := [(''react'', ''^16'')],
       manifest_bundledDependencies := []\<rparr>,
      \<lparr>dependencies = [(''left-pad'', ''*'')],
       devDependencies = [(''test-lib'', ''^3''), (''react'', ''16.0.0'')],
       peerDependencies = [(''react'', ''^16'')]\<rparr>, [])"
  by (simp add: renderDependencies_def new_NpmPackage_def pinnedRequest_def
      example_minVersion_def addDevDeps_def addDependency_def parseDependency_def
      versionOrStar_def Let_def obj_set_eval)

lemma peer_bar_state:
  "addPeerDeps new_NpmPackage [spec]
     = Inr (new_NpmPackage\<lparr>deps := addDependency [] spec PEER\<rparr>)"
  by (simp add: addPeerDeps_def new_NpmPackage_def)

lemma eval_addDependency:
  "addDependency L ''baz'' t = upsert L \<lparr>name = ''baz'', version = None, type = t\<rparr>"
  by (simp add: addDependency_def parseDependency_def)

lemma scenario_buckets:
  "fillBuckets
     [\<lparr>name = ''left-pad'', version = None, type = RUNTIME\<rparr>,
      \<lparr>name = ''test-lib'', version = Some ''^3'', type = BUILD\<rparr>,
      \<lparr>name = ''react'', version = Some ''^16'', type = PEER\<rparr>,
      \<lparr>name = ''react'', version = Some ''16.0.0'', type = BUILD\<rparr>]
     [\<lparr>name = ''left-pad'', version = None, type = RUNTIME\<rparr>,
      \<lparr>name = ''test-lib'', version = Some ''^3'', type = BUILD\<rparr>,
      \<lparr>name = ''react'', version = Some ''^16'', type = PEER\<rparr>,
      \<lparr>name = ''react'', version = Some ''16.0.0'', type = BUILD\<rparr>] (emptyDeps, [])
   = Inr (\<lparr>dependencies = [(''left-pad'', ''*'')],
           devDependencies = [(''test-lib'', ''^3''), (''react'', ''16.0.0'')],
           peerDependencies = [(''react'', ''^16'')]\<rparr>, [])"
  by (simp add: emptyDeps_def versionOrStar_def Let_def obj_set_eval)

subsection \<open>Buckets and role conflicts\<close>

text \<open>
  C3 (as amended): when a name is in the ledger as BUNDLED and as PEER, in either order, the loop
  that fills the buckets raises the conflict error, and \<^verbatim>\<open>renderDependencies\<close> fails:
  with that conflict error, unless peer pinning, which runs first, has already raised;
  then the error is the one of the first PEER entry whose pinning fails, which is the
  resolution error of the code or the \<^verbatim>\<open>TypeError\<close> of the semver library. When
  rendering succeeds, the keys of the runtime, dev and peer maps are the names of the
  entries of the roles RUNTIME or BUNDLED, of BUILD, TEST or DEVENV, and of PEER; the
  bundled list is the names of the BUNDLED entries, in order, so that every BUNDLED entry
  is in the bundled list and in the runtime map.
\<close>

theorem buckets_partition_and_conflict:
  "(b \<in> set L \<and> type b = BUNDLED \<and> p \<in> set L \<and> type p = PEER \<and> name p = name b \<longrightarrow>
      (\<exists>n. fillBuckets L L (emptyDeps, []) = Inl (ConflictError n)))
 \<and> (b \<in> set (deps st) \<and> type b = BUNDLED \<and> p \<in> set (deps st) \<and> type p = PEER
      \<and> name p = name b \<longrightarrow>
      isl (renderDependencies mv pkgfile st)
      \<and> ((\<exists>n. renderDependencies mv pkgfile st = Inl (ConflictError n))
         \<or> (pinnedDevDependency st \<noteq> Some False
            \<and> (\<exists>q e. firstFailingPeer mv (deps st) = Some q \<and> pinnedRequest mv q = Inl e
                   \<and> renderDependencies mv pkgfile st = Inl e
                   \<and> ((\<exists>n v. e = ResolutionError n v) \<or> (\<exists>r. e = SemverTypeError r))))))
 \<and> (renderDependencies mv pkgfile st = Inr (st', nd, logs) \<longrightarrow>
      fst ` set (dependencies nd)
        = name ` {d \<in> set (deps st'). type d = RUNTIME \<or> type d = BUNDLED}
      \<and> fst ` set (devDependencies nd)
        = name ` {d \<in> set (deps st'). type d = BUILD \<or> type d = TEST \<or> type d = DEVENV}
      \<and> fst ` set (peerDependencies nd) = name ` {d \<in> set (deps st'). type d = PEER}
      \<and> manifest_bundledDependencies st'
        = map name (filter (\<lambda>d. type d = BUNDLED) (deps st'))
      \<and> manifest_dependencies st' = dependencies nd)"
proof (intro conjI impI)
  assume "b \<in> set L \<and> type b = BUNDLED \<and> p \<in> set L \<and> type p = PEER \<and> name p = name b"
  then have "conflicting L" by (blast intro: conflictingI)
  then show "\<exists>n. fillBuckets L L (emptyDeps, []) = Inl (ConflictError n)"
    by (rule fillBuckets_conflicting)
next
  assume "b \<in> set (deps st) \<and> type b = BUNDLED \<and> p \<in> set (deps st) \<and> type p = PEER
      \<and> name p = name b"
  then have c: "conflicting (deps st)" by (blast intro: conflictingI)
  from render_conflict [OF c, of mv pkgfile]
  show "(\<exists>n. renderDependencies mv pkgfile st = Inl (ConflictError n))
         \<or> (pinnedDevDependency st \<noteq> Some False
            \<and> (\<exists>q e. firstFailingPeer mv (deps st) = Some q \<and> pinnedRequest mv q = Inl e
                   \<and> renderDependencies mv pkgfile st = Inl e
                   \<and> ((\<exists>n v. e = ResolutionError n v) \<or> (\<exists>r. e = SemverTypeError r))))" .
  then show "isl (renderDependencies mv pkgfile st)" by auto
next
  assume r: "renderDependencies mv pkgfile st = Inr (st', nd, logs)"
  note s = render_sections [OF r]
  show "fst ` set (dependencies nd)
        = name ` {d \<in> set (deps st'). type d = RUNTIME \<or> type d = BUNDLED}"
    unfolding s(1) keys_reconciled_fill by (simp add: in_runtime_def)
  show "fst ` set (devDependencies nd)
        = name ` {d \<in> set (deps st'). type d = BUILD \<or> type d = TEST \<or> type d = DEVENV}"
    unfolding s(2) keys_reconciled_fill by (simp add: in_dev_def)
  show "fst ` set (peerDependencies nd) = name ` {d \<in> set (deps st'). type d = PEER}"
    unfolding s(3) keys_reconciled_fill by (simp add: in_peer_def)
  show "manifest_bundledDependencies st'
        = map name (filter (\<lambda>d. type d = BUNDLED) (deps st'))"
    by (rule s(4))
  from render_Inr [OF r] obtain reqs bundled where
    "st' = st\<lparr>deps := foldl upsert (deps st) (map pinnedDep reqs),
                     manifest_dependencies := dependencies nd,
                     manifest_devDependencies := devDependencies nd,
                     manifest_peerDependencies := peerDependencies nd,
                     manifest_bundledDependencies := bundled\<rparr>" by blast
  then show "manifest_dependencies st' = dependencies nd" by (rule ssubst) simp
qed

theorem buckets_partition_and_conflict_witness:
  "renderDependencies example_minVersion None
     (new_NpmPackage\<lparr>deps := addDependency (addDependency [] ''baz'' PEER) ''baz'' BUNDLED\<rparr>)
     = Inl (ConflictError ''baz'')
   \<and> renderDependencies example_minVersion None
     (new_NpmPackage\<lparr>deps := addDependency (addDependency [] ''baz'' BUNDLED) ''baz'' PEER\<rparr>)
     = Inl (ConflictError ''baz'')
   \<and> fillBuckets
       [\<lparr>name = ''baz'', version = None, type = BUNDLED\<rparr>,
        \<lparr>name = ''baz'', version = None, type = PEER\<rparr>]
       [\<lparr>name = ''baz'', version = None, type = BUNDLED\<rparr>,
        \<lparr>name = ''baz'', version = None, type = PEER\<rparr>] (emptyDeps, [])
     = Inl (ConflictError ''baz'')
   \<and> (\<exists>st'. renderDependencies example_minVersion None
         (new_NpmPackage\<lparr>deps := addDependency [] ''baz'' BUNDLED\<rparr>)
       = Inr (st', \<lparr>dependencies = [(''baz'', ''*'')], devDependencies = [],
                    peerDependencies = []\<rparr>, [])
       \<and> manifest_bundledDependencies st' = [''baz''])"
proof -
  let ?b = "\<lparr>name = ''baz'', version = None, type = BUNDLED\<rparr>"
  let ?p = "\<lparr>name = ''baz'', version = None, type = PEER\<rparr>"
  let ?st1 = "new_NpmPackage\<lparr>deps := addDependency (addDependency [] ''baz'' PEER) ''baz'' BUNDLED\<rparr>"
  let ?st2 = "new_NpmPackage\<lparr>deps := addDependency (addDependency [] ''baz'' BUNDLED) ''baz'' PEER\<rparr>"
  let ?st3 = "new_NpmPackage\<lparr>deps := addDependency [] ''baz'' BUNDLED\<rparr>"
  have d1: "deps ?st1 = [?p, ?b]" and d2: "deps ?st2 = [?b, ?p]" and d3: "deps ?st3 = [?b]"
    by (simp_all add: eval_addDependency)
  have r1: "renderDependencies example_minVersion None ?st1 = Inl (ConflictError ''baz'')"
    unfolding renderDependencies_def
    by (simp add: d1 new_NpmPackage_def pinnedRequest_def addDevDeps_def eval_addDependency Let_def)
  have r2: "renderDependencies example_minVersion None ?st2 = Inl (ConflictError ''baz'')"
    unfolding renderDependencies_def
    by (simp add: d2 new_NpmPackage_def pinnedRequest_def addDevDeps_def eval_addDependency Let_def)
  have r3: "renderDependencies example_minVersion None ?st3
       = Inr (?st3\<lparr>manifest_dependencies := [(''baz'', ''*'')],
                   manifest_devDependencies := [], manifest_peerDependencies := [],
                   manifest_bundledDependencies := [''baz'']\<rparr>,
              \<lparr>dependencies = [(''baz'', ''*'')], devDependencies = [],
                    peerDependencies = []\<rparr>, [])"
    unfolding renderDependencies_def
    by (simp add: d3 new_NpmPackage_def Let_def versionOrStar_def eval_addDependency obj_set_eval)
  have f: "fillBuckets [?b, ?p] [?b, ?p] (emptyDeps, []) = Inl (ConflictError ''baz'')"
    by (simp add: Let_def)
  from buckets_partition_and_conflict [of ?b "[?b, ?p]" ?p ?st2 example_minVersion None]
    buckets_partition_and_conflict [of ?b "[?b, ?p]" ?p ?st3 example_minVersion None _ _ "[]"]
    r1 r2 r3 f
  show ?thesis by (simp add: eval_addDependency)
qed

text \<open>
  C3 as stated fails when peer pinning fails first. With the peer \<open>baz\<close> at the range
  \<open>>2.0.0 <1.0.0\<close>, which no version satisfies, and \<open>baz\<close> bundled as well, rendering
  raises the resolution error of the first loop, not the conflict error of the second;
  with the peer \<open>baz\<close> at \<open>latest\<close>, which is no range, it raises the \<^verbatim>\<open>TypeError\<close> of
  the semver library.
\<close>

theorem conflict_behind_resolution_counterexample:
  "renderDependencies example_minVersion None
     (new_NpmPackage\<lparr>deps :=
        [\<lparr>name = ''baz'', version = Some ''>2.0.0 <1.0.0'', type = PEER\<rparr>,
         \<lparr>name = ''baz'', version = None, type = BUNDLED\<rparr>]\<rparr>)
   = Inl (ResolutionError ''baz'' ''>2.0.0 <1.0.0'')
   \<and> renderDependencies example_minVersion None
     (new_NpmPackage\<lparr>deps :=
        [\<lparr>name = ''baz'', version = Some ''latest'', type = PEER\<rparr>,
         \<lparr>name = ''baz'', version = None, type = BUNDLED\<rparr>]\<rparr>)
   = Inl (SemverTypeError ''latest'')"
  by (simp add: renderDependencies_def new_NpmPackage_def pinnedRequest_def
      example_minVersion_def)

subsection \<open>Rendering again\<close>

lemma keys_upsert_list:
  "map dep_key (upsert L d)
     = (if dep_key d \<in> set (map dep_key L) then map dep_key L else map dep_key L @ [dep_key d])"
proof (induction L)
  case Nil
  show ?case by simp
next
  case (Cons x L)
  show ?case
  proof (cases "dep_key x = dep_key d")
    case True
    then show ?thesis by (simp add: upsert_Cons del: upsert.simps(2))
  next
    case False
    then have "dep_key d \<noteq> dep_key x" by simp
    with False Cons show ?thesis by (simp add: upsert_Cons del: upsert.simps(2))
  qed
qed

lemma keys_foldl_upsert_append:
  "\<exists>ks. map dep_key (foldl upsert L ds) = map dep_key L @ ks"
proof (induction ds arbitrary: L)
  case Nil
  show ?case by simp
next
  case (Cons d ds)
  from Cons.IH [of "upsert L d"] obtain ks where
    "map dep_key (foldl upsert (upsert L d) ds) = map dep_key (upsert L d) @ ks" by blast
  then show ?case by (simp add: keys_upsert_list split: if_splits)
qed

lemma keys_foldl_upsert_prefix:
  "take (length L) (map dep_key (foldl upsert L ds)) = map dep_key L"
proof -
  from keys_foldl_upsert_append [of L ds] obtain ks where
    "map dep_key (foldl upsert L ds) = map dep_key L @ ks" by blast
  then show ?thesis by simp
qed

lemma distinct_foldl_upsert:
  "distinct (map dep_key L) \<Longrightarrow> distinct (map dep_key (foldl upsert L ds))"
  by (induction ds arbitrary: L) (simp_all add: distinct_upsert)

lemma preSynthesize_idempotent:
  assumes "preSynthesize mv pkgfile st = Inr (st1, logs)"
  shows "preSynthesize mv pkgfile st1 = Inr (st1, logs)
       \<and> (\<exists>nd. renderedDeps st1 = Some nd
               \<and> renderDependencies mv pkgfile st1 = Inr (st1, nd, logs))
       \<and> take (length (deps st)) (map dep_key (deps st1)) = map dep_key (deps st)
       \<and> (distinct (map dep_key (deps st)) \<longrightarrow> distinct (map dep_key (deps st1)))
       \<and> npmScriptForTask st1 task = npmScriptForTask st task
       \<and> runTaskCommand \<lparr>npmPackage = st1, runScriptCommand = c\<rparr> task
           = runTaskCommand \<lparr>npmPackage = st, runScriptCommand = c\<rparr> task"
proof -
  from assms obtain st' nd where
    r: "renderDependencies mv pkgfile st = Inr (st', nd, logs)" and
    st1: "st1 = st'\<lparr>renderedDeps := Some nd\<rparr>"
    by (auto simp: preSynthesize_def split: sum.splits)
  have again: "renderDependencies mv pkgfile st1 = Inr (st1, nd, logs)"
    unfolding st1 by (rule render_idem [OF r])
  then have pre: "preSynthesize mv pkgfile st1 = Inr (st1, logs)"
    by (simp add: preSynthesize_def st1)
  from render_Inr [OF r] obtain reqs bundled where
    st': "st' = st\<lparr>deps := foldl upsert (deps st) (map pinnedDep reqs),
                     manifest_dependencies := dependencies nd,
                     manifest_devDependencies := devDependencies nd,
                     manifest_peerDependencies := peerDependencies nd,
                     manifest_bundledDependencies := bundled\<rparr>" by blast
  have d: "deps st1 = foldl upsert (deps st) (map pinnedDep reqs)"
    and m: "npmTaskExecution st1 = npmTaskExecution st" "projenCommand st1 = projenCommand st"
    by (simp_all add: st1 st')
  have rd: "renderedDeps st1 = Some nd" by (simp add: st1)
  show ?thesis
    using pre again rd
    by (simp add: d m keys_foldl_upsert_prefix distinct_foldl_upsert
        npmScriptForTask_def runTaskCommand_def)
qed

subsection \<open>Reconciliation with the manifest on disk\<close>

lemma render_reconciles:
  assumes "renderDependencies mv pkgfile st = Inr (st', nd, logs)"
  shows "\<exists>st0 fresh. renderDependencies mv None st = Inr (st0, fresh, [])
     \<and> dependencies nd
         = map (\<lambda>(n, u). (n, reconciled (priorSection pkg_dependencies pkgfile) n u))
             (dependencies fresh)
     \<and> devDependencies nd
         = map (\<lambda>(n, u). (n, reconciled (priorSection pkg_devDependencies pkgfile) n u))
             (devDependencies fresh)
     \<and> peerDependencies nd
         = map (\<lambda>(n, u). (n, reconciled (priorSection pkg_peerDependencies pkgfile) n u))
             (peerDependencies fresh)"
proof -
  from render_success_any_manifest [OF assms] obtain st0 fresh where
    f: "renderDependencies mv None st = Inr (st0, fresh, [])" and d: "deps st0 = deps st'"
    by blast
  note s0 = render_sections [OF f]
  note s = render_sections [OF assms]
  have p: "priorSection sel None = []" for sel by (simp add: priorSection_def)
  have "dependencies fresh = fill in_runtime (deps st') []"
    "devDependencies fresh = fill in_dev (deps st') []"
    "peerDependencies fresh = fill in_peer (deps st') []"
    using s0(1-3) by (simp_all add: p map_reconciled_empty d)
  with s(1-3) f show ?thesis by simp
qed

lemma reconciled_kept:
  "obj_get cur n = Some cv \<Longrightarrow> cv \<noteq> [] \<Longrightarrow> cv \<noteq> ''*'' \<Longrightarrow> reconciled cur n ''*'' = cv"
  by (simp add: reconciled_def truthy_def)

lemma reconciled_explicit: "u \<noteq> ''*'' \<Longrightarrow> reconciled cur n u = u"
  by (simp add: reconciled_def)

text \<open>
  C2: let \<open>fresh\<close> be the dependencies computed without a manifest, and \<open>nd\<close> the ones
  rendered against the manifest \<open>pkg\<close>. In each of the three maps, a name whose fresh
  version is \<open>*\<close> and whose version in \<open>pkg\<close> is concrete (not empty and not \<open>*\<close>) has
  the version of \<open>pkg\<close> in \<open>nd\<close>; a name whose fresh version is not \<open>*\<close> keeps it,
  whatever \<open>pkg\<close> holds. The keys and their order are those of \<open>fresh\<close>.
\<close>

theorem prior_versions_kept:
  assumes "renderDependencies mv (Some pkg) st = Inr (st', nd, logs)"
  shows "\<exists>st0 fresh. renderDependencies mv None st = Inr (st0, fresh, [])
     \<and> (\<forall>n cur cv. obj_get (dependencies fresh) n = Some ''*''
           \<and> pkg_dependencies pkg = Some cur \<and> obj_get cur n = Some cv
           \<and> cv \<noteq> [] \<and> cv \<noteq> ''*'' \<longrightarrow> obj_get (dependencies nd) n = Some cv)
     \<and> (\<forall>n u. obj_get (dependencies fresh) n = Some u \<and> u \<noteq> ''*'' \<longrightarrow>
           obj_get (dependencies nd) n = Some u)
     \<and> (\<forall>n cur cv. obj_get (devDependencies fresh) n = Some ''*''
           \<and> pkg_devDependencies pkg = Some cur \<and> obj_get cur n = Some cv
           \<and> cv \<noteq> [] \<and> cv \<noteq> ''*'' \<longrightarrow> obj_get (devDependencies nd) n = Some cv)
     \<and> (\<forall>n u. obj_get (devDependencies fresh) n = Some u \<and> u \<noteq> ''*'' \<longrightarrow>
           obj_get (devDependencies nd) n = Some u)
     \<and> (\<forall>n cur cv. obj_get (peerDependencies fresh) n = Some ''*''
           \<and> pkg_peerDependencies pkg = Some cur \<and> obj_get cur n = Some cv
           \<and> cv \<noteq> [] \<and> cv \<noteq> ''*'' \<longrightarrow> obj_get (peerDependencies nd) n = Some cv)
     \<and> (\<forall>n u. obj_get (peerDependencies fresh) n = Some u \<and> u \<noteq> ''*'' \<longrightarrow>
           obj_get (peerDependencies nd) n = Some u)
     \<and> map fst (dependencies nd) = map fst (dependencies fresh)
     \<and> map fst (devDependencies nd) = map fst (devDependencies fresh)
     \<and> map fst (peerDependencies nd) = map fst (peerDependencies fresh)"
proof -
  from render_reconciles [OF assms] obtain st0 fresh where
    f: "renderDependencies mv None st = Inr (st0, fresh, [])" and
    run: "dependencies nd
         = map (\<lambda>(n, u). (n, reconciled (priorSection pkg_dependencies (Some pkg)) n u))
             (dependencies fresh)" and
    dev: "devDependencies nd
         = map (\<lambda>(n, u). (n, reconciled (priorSection pkg_devDependencies (Some pkg)) n u))
             (devDependencies fresh)" and
    peer: "peerDependencies nd
         = map (\<lambda>(n, u). (n, reconciled (priorSection pkg_peerDependencies (Some pkg)) n u))
             (peerDependencies fresh)"
    by blast
  have kept: "obj_get (map (\<lambda>(n, u). (n, reconciled (priorSection sel (Some pkg)) n u)) ob) n
                = Some cv"
    if "obj_get ob n = Some ''*''" "sel pkg = Some cur" "obj_get cur n = Some cv"
      "cv \<noteq> []" "cv \<noteq> ''*''" for sel ob n cur cv
    using that by (simp add: obj_get_map priorSection_def reconciled_kept)
  have expl: "obj_get (map (\<lambda>(n, u). (n, reconciled cur n u)) ob) n = Some u"
    if "obj_get ob n = Some u" "u \<noteq> ''*''" for cur ob n u
    using that by (simp add: obj_get_map reconciled_explicit)
  show ?thesis
    apply (rule exI [of _ st0], rule exI [of _ fresh])
    apply (intro conjI allI impI)
             apply (rule f)
            apply (simp only: run, erule conjE, (erule conjE)+, erule (4) kept)
           apply (simp only: run, erule conjE, erule (1) expl)
          apply (simp only: dev, (erule conjE)+, erule (4) kept)
         apply (simp only: dev, erule conjE, erule (1) expl)
        apply (simp only: peer, (erule conjE)+, erule (4) kept)
       apply (simp only: peer, erule conjE, erule (1) expl)
      apply (simp only: run keys_map)
     apply (simp only: dev keys_map)
    apply (simp only: peer keys_map)
    done
qed

theorem prior_versions_kept_witness:
  "deps (addDeps new_NpmPackage [''foo'', ''bar@^2''])
     = [\<lparr>name = ''foo'', version = None, type = RUNTIME\<rparr>,
        \<lparr>name = ''bar'', version = Some ''^2'', type = RUNTIME\<rparr>]
   \<and> (\<exists>st' nd. renderDependencies example_minVersion
         (Some \<lparr>pkg_dependencies = Some [(''foo'', ''^1.2.0''), (''bar'', ''^1.0.0'')],
                pkg_devDependencies = None, pkg_peerDependencies = None,
                pkg_scripts = None\<rparr>)
         (addDeps new_NpmPackage [''foo'', ''bar@^2'']) = Inr (st', nd, [])
       \<and> obj_get (dependencies nd) ''foo'' = Some ''^1.2.0''
       \<and> obj_get (dependencies nd) ''bar'' = Some ''^2'')"
proof -
  let ?pkg = "\<lparr>pkg_dependencies = Some [(''foo'', ''^1.2.0''), (''bar'', ''^1.0.0'')],
                pkg_devDependencies = None, pkg_peerDependencies = None,
                pkg_scripts = None\<rparr>"
  let ?L = "[\<lparr>name = ''foo'', version = None, type = RUNTIME\<rparr>,
        \<lparr>name = ''bar'', version = Some ''^2'', type = RUNTIME\<rparr>]"
  have st: "addDeps new_NpmPackage [''foo'', ''bar@^2''] = new_NpmPackage\<lparr>deps := ?L\<rparr>"
    by (simp add: addDeps_def addDependency_def parseDependency_def new_NpmPackage_def)
  obtain st' nd where
    r: "renderDependencies example_minVersion (Some ?pkg) (new_NpmPackage\<lparr>deps := ?L\<rparr>)
          = Inr (st', nd, [])"
    by (simp add: renderDependencies_def new_NpmPackage_def versionOrStar_def Let_def
        readDeps_def readDeps_step_def obj_get_def truthy_def obj_set_eval)
  have r0: "renderDependencies example_minVersion None (new_NpmPackage\<lparr>deps := ?L\<rparr>)
          = Inr (new_NpmPackage\<lparr>deps := ?L,
                   manifest_dependencies := [(''foo'', ''*''), (''bar'', ''^2'')],
                   manifest_devDependencies := [], manifest_peerDependencies := [],
                   manifest_bundledDependencies := []\<rparr>,
                 \<lparr>dependencies = [(''foo'', ''*''), (''bar'', ''^2'')],
                  devDependencies = [], peerDependencies = []\<rparr>, [])"
    by (simp add: renderDependencies_def new_NpmPackage_def versionOrStar_def Let_def obj_set_eval)
  from prior_versions_kept [OF r] r0
  have kept: "\<forall>n cur cv. obj_get [(''foo'', ''*''), (''bar'', ''^2'')] n = Some ''*''
           \<and> pkg_dependencies ?pkg = Some cur \<and> obj_get cur n = Some cv
           \<and> cv \<noteq> [] \<and> cv \<noteq> ''*'' \<longrightarrow> obj_get (dependencies nd) n = Some cv"
    and expl: "\<forall>n u. obj_get [(''foo'', ''*''), (''bar'', ''^2'')] n = Some u \<and> u \<noteq> ''*'' \<longrightarrow>
           obj_get (dependencies nd) n = Some u"
    by auto
  have "obj_get (dependencies nd) ''foo'' = Some ''^1.2.0''"
    by (rule kept [rule_format, of "''foo''" "[(''foo'', ''^1.2.0''), (''bar'', ''^1.0.0'')]"])
       (simp add: obj_get_def)
  moreover have "obj_get (dependencies nd) ''bar'' = Some ''^2''"
    by (rule expl [rule_format]) (simp add: obj_get_def)
  ultimately show ?thesis using r st by auto
qed

subsection \<open>Peer pinning\<close>

lemma pinnedDep_of_request:
  assumes r: "pinnedRequest mv p = Inr r" and wf: "wf_name (name p)"
    and mvok: "\<And>x ver. mv x = MinVersion ver \<Longrightarrow> CHR ''@'' \<notin> set ver"
  shows "pinnedDep r = pinnedEntry mv p"
proof (cases "version p")
  case None
  with r have "r = name p" by (simp add: pinnedRequest_def)
  with wf None show ?thesis by (simp add: pinnedDep_def pinnedEntry_def parse_plain wf_name_def)
next
  case (Some v)
  show ?thesis
  proof (cases "v = []")
    case True
    with r Some have "r = name p" by (simp add: pinnedRequest_def)
    with wf Some True show ?thesis
      by (simp add: pinnedDep_def pinnedEntry_def parse_plain wf_name_def)
  next
    case False
    with r Some obtain ver where ver: "mv v = MinVersion ver" "ver \<noteq> []" "r = name p @ ''@'' @ ver"
      by (auto simp: pinnedRequest_def split: minVersion_result.splits if_splits)
    have "parseDependency (name p @ ''@'' @ ver) = (name p, Some ver)"
      by (rule parse_pinned) (use wf mvok [OF ver(1)] in \<open>simp_all add: wf_name_def\<close>)
    with ver Some False show ?thesis by (simp add: pinnedDep_def pinnedEntry_def)
  qed
qed

lemma pinnedDeps_of_requests:
  assumes "map (pinnedRequest mv) peers = map Inr reqs"
    and "\<And>p. p \<in> set peers \<Longrightarrow> wf_name (name p)"
    and mvok: "\<And>x ver. mv x = MinVersion ver \<Longrightarrow> CHR ''@'' \<notin> set ver"
  shows "map pinnedDep reqs = map (pinnedEntry mv) peers"
  using assms(1,2)
proof (induction peers arbitrary: reqs)
  case Nil
  then show ?case by simp
next
  case (Cons p peers)
  then obtain r rs where reqs: "reqs = r # rs" and r: "pinnedRequest mv p = Inr r"
    and rs: "map (pinnedRequest mv) peers = map Inr rs" by (cases reqs) auto
  have "pinnedDep r = pinnedEntry mv p"
    by (rule pinnedDep_of_request [OF r _ mvok]) (simp_all add: Cons.prems)
  moreover have "map pinnedDep rs = map (pinnedEntry mv) peers"
    by (rule Cons.IH [OF rs]) (simp add: Cons.prems)
  ultimately show ?case by (simp add: reqs)
qed

lemma distinct_names_of_type:
  "distinct (map dep_key L) \<Longrightarrow> distinct (map name (filter (\<lambda>d. type d = t) L))"
proof (induction L)
  case Nil
  then show ?case by simp
next
  case (Cons x L)
  have "name x \<notin> name ` {d \<in> set L. type d = t}" if "type x = t"
  proof
    assume "name x \<in> name ` {d \<in> set L. type d = t}"
    then obtain d where "d \<in> set L" "type d = t" "name d = name x" by auto
    then have "dep_key d = dep_key x" using that by (simp add: dep_key_def)
    with \<open>d \<in> set L\<close> have "dep_key x \<in> dep_key ` set L" by (metis image_eqI)
    with Cons.prems show False by simp
  qed
  with Cons show ?case by auto
qed

lemma dep_key_pinnedEntry: "dep_key (pinnedEntry mv p) = (name p, BUILD)"
  by (simp add: dep_key_def pinnedEntry_def)

lemma distinct_keys_inj:
  "distinct (map dep_key L) \<Longrightarrow> x \<in> set L \<Longrightarrow> y \<in> set L \<Longrightarrow> dep_key x = dep_key y \<Longrightarrow> x = y"
  by (auto simp: distinct_map dest: inj_onD)

lemma find_all_same:
  "x \<in> set xs \<Longrightarrow> P x \<Longrightarrow> (\<And>y. y \<in> set xs \<Longrightarrow> P y \<Longrightarrow> f y = c) \<Longrightarrow>
   (case List.find P xs of None \<Rightarrow> a | Some d \<Rightarrow> Some (f d)) = Some c"
  by (induction xs) auto

lemma obj_get_fill:
  assumes "x \<in> set L" "P (type x)"
    and "\<And>y. y \<in> set L \<Longrightarrow> P (type y) \<Longrightarrow> name y = name x \<Longrightarrow> versionOrStar y = c"
  shows "obj_get (fill P L []) (name x) = Some c"
  unfolding fill_def obj_get_fold
  by (rule find_all_same [of x]) (use assms in auto)

lemma render_succeeds:
  assumes "pinnedDevDependency st = Some False
           \<or> (\<forall>p. p \<in> set (deps st) \<and> type p = PEER \<longrightarrow> \<not> isl (pinnedRequest mv p))"
    and "\<not> conflicting (deps st)"
  shows "\<exists>r. renderDependencies mv pkgfile st = Inr r"
proof -
  have "\<exists>reqs. pinPhase mv st = Inr (st\<lparr>deps := foldl upsert (deps st) (map pinnedDep reqs)\<rparr>)"
  proof (cases "pinnedDevDependency st = Some False")
    case True
    then have "pinPhase mv st = Inr (st\<lparr>deps := foldl upsert (deps st) (map pinnedDep [])\<rparr>)"
      by (simp add: pinPhase_def)
    then show ?thesis by blast
  next
    case False
    with assms(1) have "map (pinnedRequest mv) (filter (\<lambda>d. type d = PEER) (deps st))
            = map Inr (map (\<lambda>p. projr (pinnedRequest mv p)) (filter (\<lambda>d. type d = PEER) (deps st)))"
      by (auto simp: isl_def)
    from pinPeers_total [OF this, of st]
    have pp: "pinPeers mv (filter (\<lambda>d. type d = PEER) (deps st)) st
                = Inr (st\<lparr>deps := foldl upsert (deps st)
                    (map pinnedDep (map (\<lambda>p. projr (pinnedRequest mv p))
                       (filter (\<lambda>d. type d = PEER) (deps st))))\<rparr>)" .
    have "pinPhase mv st = pinPeers mv (filter (\<lambda>d. type d = PEER) (deps st)) st"
      using False by (cases "pinnedDevDependency st") (auto simp: pinPhase_def)
    with pp show ?thesis by (metis)
  qed
  then obtain reqs where
    pin: "pinPhase mv st = Inr (st\<lparr>deps := foldl upsert (deps st) (map pinnedDep reqs)\<rparr>)"
    by blast
  have "\<not> conflicting (foldl upsert (deps st) (map pinnedDep reqs))"
    using assms(2) by (simp add: conflicting_pinned)
  from fillBuckets_not_conflicting [OF this, of "(emptyDeps, [])"] pin
  show ?thesis by (auto simp: render_alt)
qed

text \<open>
  C1 (as amended): with pinning enabled (\<^verbatim>\<open>pinnedDevDependency\<close> unset or true), on a
  ledger with one entry per name and role whose names are package names, and a semver
  library whose versions contain no \<open>@\<close>: for every PEER entry \<open>d\<close> with a non-empty
  range \<open>v\<close>,
  \<^item> if \<open>v\<close> has no minimum version, the pinning of \<open>d\<close> raises the resolution error; if
    the library cannot parse \<open>v\<close>, it raises the \<^verbatim>\<open>TypeError\<close> of the library;
  \<^item> if the pinning of \<open>d\<close> raises, rendering fails, with the error of the first PEER
    entry whose pinning raises; this is a resolution error when the library can parse
    the range of every PEER entry;
  \<^item> if rendering succeeds, the ledger holds a BUILD entry of the same name whose version
    is exactly the minimum of \<open>v\<close>, the name is a key of the dev map, and its value there
    is that minimum unless a TEST or DEVENV entry of the same name overwrites it;
  \<^item> rendering does succeed when every PEER range has a minimum and no name is both
    BUNDLED and PEER.
\<close>

theorem peer_pinning:
  assumes pinned: "pinnedDevDependency st \<noteq> Some False"
    and keys: "distinct (map dep_key (deps st))"
    and names: "list_all (\<lambda>e. wf_name (name e)) (deps st)"
    and versions: "\<forall>r ver. minVersion r = MinVersion ver \<longrightarrow> CHR ''@'' \<notin> set ver"
    and d: "d \<in> set (deps st)" "type d = PEER" "version d = Some v" "v \<noteq> []"
  shows "(minVersion v = NoMinimum \<or> minVersion v = MinVersion [] \<longrightarrow>
            pinnedRequest minVersion d = Inl (ResolutionError (name d) v))
       \<and> (minVersion v = InvalidRange \<longrightarrow>
            pinnedRequest minVersion d = Inl (SemverTypeError v))
       \<and> (isl (pinnedRequest minVersion d) \<longrightarrow>
            (\<exists>q e. firstFailingPeer minVersion (deps st) = Some q
               \<and> pinnedRequest minVersion q = Inl e
               \<and> renderDependencies minVersion pkgfile st = Inl e))
       \<and> (isl (pinnedRequest minVersion d)
            \<and> (\<forall>q r. q \<in> set (deps st) \<and> type q = PEER \<and> version q = Some r \<longrightarrow>
                  minVersion r \<noteq> InvalidRange) \<longrightarrow>
            (\<exists>n r. renderDependencies minVersion pkgfile st = Inl (ResolutionError n r)))
       \<and> (renderDependencies minVersion pkgfile st = Inr (st', nd, logs) \<longrightarrow>
            (\<exists>ver. minVersion v = MinVersion ver \<and> ver \<noteq> []
               \<and> \<lparr>name = name d, version = Some ver, type = BUILD\<rparr> \<in> set (deps st')
               \<and> name d \<in> fst ` set (devDependencies nd)
               \<and> (ver \<noteq> ''*''
                    \<and> \<not> (\<exists>e \<in> set (deps st). name e = name d \<and> (type e = TEST \<or> type e = DEVENV))
                  \<longrightarrow> obj_get (devDependencies nd) (name d) = Some ver)))
       \<and> ((\<forall>p. p \<in> set (deps st) \<and> type p = PEER \<longrightarrow> \<not> isl (pinnedRequest minVersion p))
            \<and> \<not> conflicting (deps st) \<longrightarrow>
            (\<exists>r. renderDependencies minVersion pkgfile st = Inr r))"
proof (intro conjI impI)
  assume "minVersion v = NoMinimum \<or> minVersion v = MinVersion []"
  then show "pinnedRequest minVersion d = Inl (ResolutionError (name d) v)"
    using d by (auto simp: pinnedRequest_def)
next
  assume "minVersion v = InvalidRange"
  then show "pinnedRequest minVersion d = Inl (SemverTypeError v)"
    using d by (simp add: pinnedRequest_def)
next
  assume "isl (pinnedRequest minVersion d)"
  from firstFailingPeer_exists [OF d(1,2) this] obtain q e where
    q: "firstFailingPeer minVersion (deps st) = Some q" "pinnedRequest minVersion q = Inl e"
    by blast
  with pinned have "pinPhase minVersion st = Inl e" unfolding pinPhase_Inl by blast
  then have "renderDependencies minVersion pkgfile st = Inl e" by (simp add: render_alt)
  with q show "\<exists>q e. firstFailingPeer minVersion (deps st) = Some q
               \<and> pinnedRequest minVersion q = Inl e
               \<and> renderDependencies minVersion pkgfile st = Inl e"
    by blast
next
  assume a: "isl (pinnedRequest minVersion d)
            \<and> (\<forall>q r. q \<in> set (deps st) \<and> type q = PEER \<and> version q = Some r \<longrightarrow>
                  minVersion r \<noteq> InvalidRange)"
  from a firstFailingPeer_exists [OF d(1,2)] obtain q e where
    q: "firstFailingPeer minVersion (deps st) = Some q" "pinnedRequest minVersion q = Inl e"
    by blast
  with pinned have "pinPhase minVersion st = Inl e" unfolding pinPhase_Inl by blast
  then have r: "renderDependencies minVersion pkgfile st = Inl e" by (simp add: render_alt)
  from firstFailingPeer_Some [OF q(1)] a
  have "minVersion r \<noteq> InvalidRange" if "version q = Some r" for r
    using that by blast
  from pinnedRequest_Inl_parsed [OF q(2) this] r
  show "\<exists>n r. renderDependencies minVersion pkgfile st = Inl (ResolutionError n r)"
    by blast
next
  assume "(\<forall>p. p \<in> set (deps st) \<and> type p = PEER \<longrightarrow> \<not> isl (pinnedRequest minVersion p))
            \<and> \<not> conflicting (deps st)"
  then show "\<exists>r. renderDependencies minVersion pkgfile st = Inr r"
    using render_succeeds [of st minVersion pkgfile] by blast
next
  assume r: "renderDependencies minVersion pkgfile st = Inr (st', nd, logs)"
  let ?peers = "filter (\<lambda>d. type d = PEER) (deps st)"
  from render_Inr [OF r] pinned obtain reqs where
    reqs: "map (pinnedRequest minVersion) ?peers = map Inr reqs" and
    st': "deps st' = foldl upsert (deps st) (map pinnedDep reqs)"
    by blast
  have dp: "d \<in> set ?peers" using d by simp
  have wf: "wf_name (name p)" if "p \<in> set ?peers" for p
    using names that by (auto simp: list_all_iff)
  have no_at: "CHR ''@'' \<notin> set ver" if "minVersion r = MinVersion ver" for r ver
    using versions that by blast
  have entries: "map pinnedDep reqs = map (pinnedEntry minVersion) ?peers"
    by (rule pinnedDeps_of_requests [OF reqs wf no_at])
  have "pinnedRequest minVersion d \<in> set (map (pinnedRequest minVersion) ?peers)"
    using dp by simp
  then have "\<not> isl (pinnedRequest minVersion d)" unfolding reqs by auto
  then obtain ver where ver: "minVersion v = MinVersion ver" "ver \<noteq> []"
    using d by (auto simp: pinnedRequest_def split: minVersion_result.splits if_splits)
  let ?e = "\<lparr>name = name d, version = Some ver, type = BUILD\<rparr>"
  have e: "pinnedEntry minVersion d = ?e" using d ver by (simp add: pinnedEntry_def)
  have "distinct (map name ?peers)" by (rule distinct_names_of_type [OF keys])
  then have "distinct (map dep_key (map (pinnedEntry minVersion) ?peers))"
    by (simp add: comp_def dep_key_pinnedEntry distinct_map inj_on_def)
  moreover have "pinnedEntry minVersion d \<in> set (map (pinnedEntry minVersion) ?peers)"
    using dp by simp
  ultimately have mem: "?e \<in> set (deps st')"
    unfolding st' entries e [symmetric] by (rule foldl_upsert_mem)
  note s = render_sections [OF r]
  have "name ?e \<in> name ` {x \<in> set (deps st'). in_dev (type x)}"
    using mem by (intro imageI) (simp add: in_dev_def)
  then have key: "name d \<in> fst ` set (devDependencies nd)"
    unfolding s(2) keys_reconciled_fill by simp
  have val: "obj_get (devDependencies nd) (name d) = Some ver"
    if "ver \<noteq> ''*''
        \<and> \<not> (\<exists>e \<in> set (deps st). name e = name d \<and> (type e = TEST \<or> type e = DEVENV))"
  proof -
    have dist: "distinct (map dep_key (deps st'))"
      unfolding st' by (rule distinct_foldl_upsert [OF keys])
    have same: "versionOrStar y = ver"
      if y: "y \<in> set (deps st')" "in_dev (type y)" "name y = name ?e" for y
    proof (cases "type y = BUILD")
      case True
      with y have "dep_key y = dep_key ?e" by (simp add: dep_key_def)
      from distinct_keys_inj [OF dist y(1) mem this] show ?thesis
        by (simp add: versionOrStar_def)
    next
      case False
      with y(2) have ty: "type y = TEST \<or> type y = DEVENV" by (simp add: in_dev_def)
      have "y \<in> set (deps st)"
      proof (rule set_filter_type [OF filter_type_pinned])
        show "y \<in> set (foldl upsert (deps st) (map pinnedDep reqs))" using y(1) st' by simp
        show "type y = type y" ..
        show "type y \<noteq> BUILD" by (rule False)
      qed
      with ty y(3) \<open>ver \<noteq> ''*'' \<and> _\<close> show ?thesis by auto
    qed
    have "obj_get (fill in_dev (deps st') []) (name ?e) = Some ver"
      by (rule obj_get_fill [OF mem]) (simp_all add: in_dev_def same)
    then show ?thesis
      unfolding s(2) using that by (simp add: obj_get_map reconciled_explicit)
  qed
  from ver mem key val
  show "\<exists>ver. minVersion v = MinVersion ver \<and> ver \<noteq> []
               \<and> \<lparr>name = name d, version = Some ver, type = BUILD\<rparr> \<in> set (deps st')
               \<and> name d \<in> fst ` set (devDependencies nd)
               \<and> (ver \<noteq> ''*''
                    \<and> \<not> (\<exists>e \<in> set (deps st). name e = name d \<and> (type e = TEST \<or> type e = DEVENV))
                  \<longrightarrow> obj_get (devDependencies nd) (name d) = Some ver)"
    by blast
qed

theorem peer_pinning_witness:
  "(\<exists>st' nd. renderDependencies example_minVersion None
        (new_NpmPackage\<lparr>deps := [\<lparr>name = ''bar'', version = Some ''^2.0.0'', type = PEER\<rparr>]\<rparr>)
        = Inr (st', nd, [])
      \<and> \<lparr>name = ''bar'', version = Some ''2.0.0'', type = BUILD\<rparr> \<in> set (deps st')
      \<and> obj_get (devDependencies nd) ''bar'' = Some ''2.0.0'')
   \<and> addPeerDeps new_NpmPackage [''bar@^2.0.0'']
        = Inr (new_NpmPackage\<lparr>deps := [\<lparr>name = ''bar'', version = Some ''^2.0.0'', type = PEER\<rparr>]\<rparr>)
   \<and> (\<exists>n r. renderDependencies example_minVersion None
        (new_NpmPackage\<lparr>deps := [\<lparr>name = ''bar'', version = Some ''>2.0.0 <1.0.0'', type = PEER\<rparr>]\<rparr>)
        = Inl (ResolutionError n r))"
proof -
  let ?d = "\<lparr>name = ''bar'', version = Some ''^2.0.0'', type = PEER\<rparr>"
  let ?st = "new_NpmPackage\<lparr>deps := [?d]\<rparr>"
  let ?b = "\<lparr>name = ''bar'', version = Some ''>2.0.0 <1.0.0'', type = PEER\<rparr>"
  let ?bad = "new_NpmPackage\<lparr>deps := [?b]\<rparr>"
  have pinned: "pinnedDevDependency ?st \<noteq> Some False" "pinnedDevDependency ?bad \<noteq> Some False"
    by (simp_all add: new_NpmPackage_def)
  have keys: "distinct (map dep_key (deps ?st))" "distinct (map dep_key (deps ?bad))" by simp_all
  have names: "list_all (\<lambda>e. wf_name (name e)) (deps ?st)"
    "list_all (\<lambda>e. wf_name (name e)) (deps ?bad)"
    by (simp_all add: wf_name_def)
  have mem: "?d \<in> set (deps ?st)" "?b \<in> set (deps ?bad)" by simp_all
  have ok: "renderDependencies example_minVersion None ?st
      = Inr (new_NpmPackage\<lparr>deps := [?d, \<lparr>name = ''bar'', version = Some ''2.0.0'', type = BUILD\<rparr>],
                manifest_dependencies := [],
                manifest_devDependencies := [(''bar'', ''2.0.0'')],
                manifest_peerDependencies := [(''bar'', ''^2.0.0'')],
                manifest_bundledDependencies := []\<rparr>,
             \<lparr>dependencies = [], devDependencies = [(''bar'', ''2.0.0'')],
              peerDependencies = [(''bar'', ''^2.0.0'')]\<rparr>, [])"
    by (simp add: renderDependencies_def new_NpmPackage_def pinnedRequest_def
      example_minVersion_def addDevDeps_def addDependency_def parseDependency_def
      versionOrStar_def Let_def obj_set_eval)
  have mvok: "\<forall>r ver. example_minVersion r = MinVersion ver \<longrightarrow> CHR ''@'' \<notin> set ver"
    using example_minVersion_no_at by blast
  have none: "example_minVersion ''>2.0.0 <1.0.0'' = NoMinimum" by (simp add: example_minVersion_def)
  have two: "example_minVersion ''^2.0.0'' = MinVersion ''2.0.0''" by (simp add: example_minVersion_def)
  have st: "addPeerDeps new_NpmPackage [''bar@^2.0.0''] = Inr ?st"
    by (simp add: peer_bar_state addDependency_def parseDependency_def)
  have td: "type ?d = PEER" "version ?d = Some ''^2.0.0''" "''^2.0.0'' \<noteq> []" by simp_all
  have tb: "type ?b = PEER" "version ?b = Some ''>2.0.0 <1.0.0''" "''>2.0.0 <1.0.0'' \<noteq> []" by simp_all
  note good = peer_pinning [OF pinned(1) keys(1) names(1) mvok mem(1) td,
      THEN conjunct2, THEN conjunct2, THEN conjunct2, THEN conjunct2, THEN conjunct1,
      rule_format, OF ok]
  note bad = peer_pinning [OF pinned(2) keys(2) names(2) mvok mem(2) tb, of None]
  from good have "\<exists>ver. example_minVersion ''^2.0.0'' = MinVersion ver \<and> ver \<noteq> []
      \<and> \<lparr>name = ''bar'', version = Some ver, type = BUILD\<rparr>
          \<in> set [?d, \<lparr>name = ''bar'', version = Some ''2.0.0'', type = BUILD\<rparr>]
      \<and> ''bar'' \<in> fst ` set [(''bar'', ''2.0.0'')]
      \<and> (ver \<noteq> ''*'' \<and> \<not> (\<exists>e \<in> set (deps ?st). name e = ''bar'' \<and> (type e = TEST \<or> type e = DEVENV))
          \<longrightarrow> obj_get [(''bar'', ''2.0.0'')] ''bar'' = Some ver)"
    by simp
  with two have g: "obj_get [(''bar'', ''2.0.0'')] ''bar'' = Some ''2.0.0''" by auto
  from bad none have failing: "isl (pinnedRequest example_minVersion ?b)" by simp
  have parsed: "\<forall>q r. q \<in> set (deps ?bad) \<and> type q = PEER \<and> version q = Some r \<longrightarrow>
                  example_minVersion r \<noteq> InvalidRange"
    by (simp add: none)
  from bad failing parsed have b: "\<exists>n r. renderDependencies example_minVersion None ?bad
        = Inl (ResolutionError n r)" by blast
  from ok g b st show ?thesis by simp
qed

text \<open>
  C1 as stated fails for a range that the semver library cannot parse: with
  \<^verbatim>\<open>addPeerDeps("bar@latest")\<close> the call of \<^verbatim>\<open>semver.minVersion\<close> raises, and rendering
  fails with the \<^verbatim>\<open>TypeError\<close> of the library instead of the resolution error. The
  same error comes out when a later PEER entry, here \<open>baz\<close>, has a range without
  minimum version: the first failure ends the loop.
\<close>

theorem unparsable_range_counterexample:
  "addPeerDeps new_NpmPackage [''bar@latest'']
     = Inr (new_NpmPackage\<lparr>deps := [\<lparr>name = ''bar'', version = Some ''latest'', type = PEER\<rparr>]\<rparr>)
   \<and> example_minVersion ''latest'' = InvalidRange
   \<and> renderDependencies example_minVersion None
       (new_NpmPackage\<lparr>deps := [\<lparr>name = ''bar'', version = Some ''latest'', type = PEER\<rparr>]\<rparr>)
     = Inl (SemverTypeError ''latest'')
   \<and> example_minVersion ''>2.0.0 <1.0.0'' = NoMinimum
   \<and> renderDependencies example_minVersion None
       (new_NpmPackage\<lparr>deps :=
          [\<lparr>name = ''bar'', version = Some ''latest'', type = PEER\<rparr>,
           \<lparr>name = ''baz'', version = Some ''>2.0.0 <1.0.0'', type = PEER\<rparr>]\<rparr>)
     = Inl (SemverTypeError ''latest'')"
proof -
  have "example_minVersion ''>2.0.0 <1.0.0'' = NoMinimum"
    by (simp add: example_minVersion_def)
  moreover have "renderDependencies example_minVersion None
       (new_NpmPackage\<lparr>deps :=
          [\<lparr>name = ''bar'', version = Some ''latest'', type = PEER\<rparr>,
           \<lparr>name = ''baz'', version = Some ''>2.0.0 <1.0.0'', type = PEER\<rparr>]\<rparr>)
     = Inl (SemverTypeError ''latest'')"
    by (simp add: renderDependencies_def new_NpmPackage_def pinnedRequest_def
        example_minVersion_def)
  moreover
  have "addPeerDeps new_NpmPackage [''bar@latest'']
     = Inr (new_NpmPackage\<lparr>deps := [\<lparr>name = ''bar'', version = Some ''latest'', type = PEER\<rparr>]\<rparr>)"
    by (simp add: peer_bar_state addDependency_def parseDependency_def)
  moreover have "example_minVersion ''latest'' = InvalidRange"
    by (simp add: example_minVersion_def)
  moreover have "renderDependencies example_minVersion None
       (new_NpmPackage\<lparr>deps := [\<lparr>name = ''bar'', version = Some ''latest'', type = PEER\<rparr>]\<rparr>)
     = Inl (SemverTypeError ''latest'')"
    by (simp add: renderDependencies_def new_NpmPackage_def pinnedRequest_def
        example_minVersion_def)
  ultimately show ?thesis by blast
qed

subsection \<open>Version defaulting\<close>

lemma bucket_preds:
  "in_runtime = (\<lambda>t. bucketOf t = RuntimeBucket)"
  "in_dev = (\<lambda>t. bucketOf t = DevBucket)"
  "in_peer = (\<lambda>t. bucketOf t = PeerBucket)"
  by (rule ext, case_tac t, simp_all add: in_runtime_def in_dev_def in_peer_def)+

lemma fillBuckets_contents:
  assumes "fillBuckets all L (emptyDeps, []) = Inr (nd, bundled)"
  shows "bucketContents b nd = fill (\<lambda>t. bucketOf t = b) L []"
  using buckets_fill [OF assms] by (cases b) (simp_all add: bucket_preds)

lemma find_filter_rev:
  "List.find P (rev (filter Q xs)) = List.find (\<lambda>x. P x \<and> Q x) (rev xs)"
proof (induction xs rule: rev_induct)
  case Nil
  show ?case by simp
next
  case (snoc x xs)
  then show ?case by simp
qed

lemma bucketContents_fill:
  assumes "renderDependencies mv None st = Inr (st', nd, logs)"
  shows "bucketContents b nd = fill (\<lambda>t. bucketOf t = b) (deps st') []"
proof -
  note s = render_sections [OF assms]
  have p: "priorSection sel None = []" for sel by (simp add: priorSection_def)
  have r: "in_runtime = (\<lambda>t. bucketOf t = RuntimeBucket)"
    and d: "in_dev = (\<lambda>t. bucketOf t = DevBucket)"
    and e: "in_peer = (\<lambda>t. bucketOf t = PeerBucket)"
    by (rule ext, case_tac t, simp_all add: in_runtime_def in_dev_def in_peer_def)+
  show ?thesis
    using s(1-3) by (cases b) (simp_all add: p map_reconciled_empty r d e)
qed

lemma versionless_wildcard:
  assumes r: "renderDependencies mv None st = Inr (st', nd, logs)"
    and d: "d \<in> set (deps st')" "version d = None"
    and others: "\<And>e. e \<in> set (deps st') \<Longrightarrow> name e = name d \<Longrightarrow>
                  bucketOf (type e) = bucketOf (type d) \<Longrightarrow> version e = None"
  shows "obj_get (bucketContents (bucketOf (type d)) nd) (name d) = Some ''*''"
  unfolding bucketContents_fill [OF r]
proof (rule obj_get_fill [OF d(1)])
  show "bucketOf (type d) = bucketOf (type d)" ..
next
  fix y assume "y \<in> set (deps st')" "bucketOf (type y) = bucketOf (type d)" "name y = name d"
  then have "version y = None" using others by blast
  then show "versionOrStar y = ''*''" by (simp add: versionOrStar_def)
qed

text \<open>
  C8 (as amended): the loop that fills the buckets writes, for every entry, the version
  of the entry or \<open>*\<close> when it has none, under the name of the entry, into the map of
  its role (RUNTIME and BUNDLED share the runtime map; BUILD, TEST and DEVENV share the
  dev map); the value of a name in a map is the one written by the last entry of that
  name that goes to that map. So an entry without version shows as \<open>*\<close> in the map of
  its role, provided no entry of the same name that goes to the same map has a version. In the
  end-to-end scenario, without a manifest on disk, the rendered maps are runtime
  \<open>left-pad: *\<close>, dev \<open>test-lib: ^3, react: 16.0.0\<close> and peer \<open>react: ^16\<close>.
\<close>

theorem versionless_entry_renders_wildcard:
  assumes fb: "fillBuckets L L (emptyDeps, []) = Inr (nd, bundled)"
    and d: "d \<in> set L" "version d = None"
    and others: "\<And>e. e \<in> set L \<Longrightarrow> name e = name d \<Longrightarrow>
                  bucketOf (type e) = bucketOf (type d) \<Longrightarrow> version e = None"
  shows "obj_get (bucketContents (bucketOf (type d)) nd) (name d) = Some ''*''
       \<and> versionOrStar d = ''*''
       \<and> obj_get (bucketContents b nd) n
           = (case List.find (\<lambda>e. name e = n \<and> bucketOf (type e) = b) (rev L) of
                None \<Rightarrow> None
              | Some e \<Rightarrow> Some (versionOrStar e))
       \<and> (\<exists>s s'. scenario = Inr s
             \<and> renderDependencies example_minVersion None s
                 = Inr (s', \<lparr>dependencies = [(''left-pad'', ''*'')],
                             devDependencies = [(''test-lib'', ''^3''), (''react'', ''16.0.0'')],
                             peerDependencies = [(''react'', ''^16'')]\<rparr>, []))"
proof (intro conjI)
  show "obj_get (bucketContents (bucketOf (type d)) nd) (name d) = Some ''*''"
    unfolding fillBuckets_contents [OF fb]
  proof (rule obj_get_fill [OF d(1)])
    show "bucketOf (type d) = bucketOf (type d)" ..
  next
    fix y assume "y \<in> set L" "bucketOf (type y) = bucketOf (type d)" "name y = name d"
    then have "version y = None" using others by blast
    then show "versionOrStar y = ''*''" by (simp add: versionOrStar_def)
  qed
  show "versionOrStar d = ''*''" using d(2) by (simp add: versionOrStar_def)
  show "obj_get (bucketContents b nd) n
           = (case List.find (\<lambda>e. name e = n \<and> bucketOf (type e) = b) (rev L) of
                None \<Rightarrow> None
              | Some e \<Rightarrow> Some (versionOrStar e))"
    unfolding fillBuckets_contents [OF fb] fill_def obj_get_fold find_filter_rev
    by (simp add: obj_get_def split: option.splits)
  show "\<exists>s s'. scenario = Inr s
             \<and> renderDependencies example_minVersion None s
                 = Inr (s', \<lparr>dependencies = [(''left-pad'', ''*'')],
                             devDependencies = [(''test-lib'', ''^3''), (''react'', ''16.0.0'')],
                             peerDependencies = [(''react'', ''^16'')]\<rparr>, [])"
    using scenario_state scenario_render by blast
qed

theorem versionless_entry_renders_wildcard_witness:
  "fillBuckets
     [\<lparr>name = ''left-pad'', version = None, type = RUNTIME\<rparr>,
      \<lparr>name = ''test-lib'', version = Some ''^3'', type = BUILD\<rparr>,
      \<lparr>name = ''react'', version = Some ''^16'', type = PEER\<rparr>,
      \<lparr>name = ''react'', version = Some ''16.0.0'', type = BUILD\<rparr>]
     [\<lparr>name = ''left-pad'', version = None, type = RUNTIME\<rparr>,
      \<lparr>name = ''test-lib'', version = Some ''^3'', type = BUILD\<rparr>,
      \<lparr>name = ''react'', version = Some ''^16'', type = PEER\<rparr>,
      \<lparr>name = ''react'', version = Some ''16.0.0'', type = BUILD\<rparr>] (emptyDeps, [])
   = Inr (\<lparr>dependencies = [(''left-pad'', ''*'')],
           devDependencies = [(''test-lib'', ''^3''), (''react'', ''16.0.0'')],
           peerDependencies = [(''react'', ''^16'')]\<rparr>, [])
   \<and> obj_get [(''left-pad'', ''*'')] ''left-pad'' = Some ''*''"
proof -
  let ?d = "\<lparr>name = ''left-pad'', version = None, type = RUNTIME\<rparr>"
  have "obj_get (bucketContents (bucketOf (type ?d)) \<lparr>dependencies = [(''left-pad'', ''*'')],
       devDependencies = [(''test-lib'', ''^3''), (''react'', ''16.0.0'')],
       peerDependencies = [(''react'', ''^16'')]\<rparr>) (name ?d) = Some ''*''"
    by (rule versionless_entry_renders_wildcard [OF scenario_buckets, THEN conjunct1]) auto
  then show ?thesis using scenario_buckets by simp
qed

text \<open>
  C8 as stated fails when another entry of the same name goes to the same map: with
  \<^verbatim>\<open>addDeps("foo")\<close> and \<^verbatim>\<open>addBundledDeps("foo@^1")\<close> the RUNTIME entry \<open>foo\<close> has no
  range, but the BUNDLED entry is written to the runtime map after it, so the runtime
  map shows \<open>foo: ^1\<close>.
\<close>

theorem shared_bucket_counterexample:
  "addBundledDeps (addDeps new_NpmPackage [''foo'']) [''foo@^1'']
     = Inr (new_NpmPackage\<lparr>deps :=
          [\<lparr>name = ''foo'', version = None, type = RUNTIME\<rparr>,
           \<lparr>name = ''foo'', version = Some ''^1'', type = BUNDLED\<rparr>]\<rparr>)
   \<and> renderDependencies example_minVersion None
       (new_NpmPackage\<lparr>deps :=
          [\<lparr>name = ''foo'', version = None, type = RUNTIME\<rparr>,
           \<lparr>name = ''foo'', version = Some ''^1'', type = BUNDLED\<rparr>]\<rparr>)
     = Inr (new_NpmPackage\<lparr>deps :=
              [\<lparr>name = ''foo'', version = None, type = RUNTIME\<rparr>,
               \<lparr>name = ''foo'', version = Some ''^1'', type = BUNDLED\<rparr>],
              manifest_dependencies := [(''foo'', ''^1'')],
              manifest_devDependencies := [], manifest_peerDependencies := [],
              manifest_bundledDependencies := [''foo'']\<rparr>,
            \<lparr>dependencies = [(''foo'', ''^1'')], devDependencies = [],
             peerDependencies = []\<rparr>, [])
   \<and> obj_get [(''foo'', ''^1'')] ''foo'' \<noteq> Some ''*''"
proof -
  have "addBundledDeps (addDeps new_NpmPackage [''foo'']) [''foo@^1'']
     = Inr (new_NpmPackage\<lparr>deps :=
          [\<lparr>name = ''foo'', version = None, type = RUNTIME\<rparr>,
           \<lparr>name = ''foo'', version = Some ''^1'', type = BUNDLED\<rparr>]\<rparr>)"
    by (simp add: addBundledDeps_def addDeps_def addDependency_def parseDependency_def
        new_NpmPackage_def)
  moreover have "renderDependencies example_minVersion None
       (new_NpmPackage\<lparr>deps :=
          [\<lparr>name = ''foo'', version = None, type = RUNTIME\<rparr>,
           \<lparr>name = ''foo'', version = Some ''^1'', type = BUNDLED\<rparr>]\<rparr>)
     = Inr (new_NpmPackage\<lparr>deps :=
              [\<lparr>name = ''foo'', version = None, type = RUNTIME\<rparr>,
               \<lparr>name = ''foo'', version = Some ''^1'', type = BUNDLED\<rparr>],
              manifest_dependencies := [(''foo'', ''^1'')],
              manifest_devDependencies := [], manifest_peerDependencies := [],
              manifest_bundledDependencies := [''foo'']\<rparr>,
            \<lparr>dependencies = [(''foo'', ''^1'')], devDependencies = [],
             peerDependencies = []\<rparr>, [])"
    by (simp add: renderDependencies_def new_NpmPackage_def versionOrStar_def Let_def
        obj_set_eval)
  moreover have "obj_get [(''foo'', ''^1'')] ''foo'' \<noteq> Some ''*''"
    by (simp add: obj_get_def)
  ultimately show ?thesis by blast
qed

subsection \<open>Idempotence of the synthesis\<close>

lemma foldl_obj_set_map:
  "wf_obj (acc @ user) \<Longrightarrow>
   foldl (\<lambda>result (n, u). obj_set result n (f n u)) acc user
     = acc @ map (\<lambda>(n, u). (n, f n u)) user"
proof (induction user arbitrary: acc)
  case Nil
  then show ?case by simp
next
  case (Cons x user)
  obtain n u where x: "x = (n, u)" by (cases x)
  from Cons.prems x have w: "wf_obj ((acc @ [(n, f n u)]) @ user)" by (simp add: wf_obj_def)
  then have "wf_obj (acc @ [(n, f n u)])" by (simp add: wf_obj_def sorted_wrt_append)
  then have "obj_set acc n (f n u) = acc @ [(n, f n u)]" by (rule obj_set_last)
  with Cons.IH [OF w] show ?case by (simp add: x)
qed

lemma resolveDeps_Some:
  "\<exists>res logs. resolveDeps le installed (Some cur) user = Inr (res, logs)"
  by (simp add: resolveDeps_def split: prod.splits)

lemma resolveDeps_section:
  assumes "wf_obj user"
    and "resolveDeps le installed current user = Inr (res, logs)"
  shows "res = resolvedSection le installed user"
  unfolding resolveDeps_result [OF assms(2)] resolvedSection_def
  using foldl_obj_set_map [of "[]" user "desiredVersion installed"] assms(1) by simp

lemma reconciled_star_nonempty: "reconciled cur n ''*'' \<noteq> []"
  by (auto simp: reconciled_def truthy_def split: option.splits)

lemma desiredVersion_fixed:
  assumes "obj_get cur2 n = Some (desiredVersion installed n (reconciled cur1 n u))"
  shows "desiredVersion installed n (reconciled cur2 n u)
           = desiredVersion installed n (reconciled cur1 n u)"
proof (cases "u = ''*''")
  case False
  then show ?thesis by (simp add: reconciled_explicit)
next
  case True
  let ?r1 = "reconciled cur1 n ''*''"
  let ?w = "desiredVersion installed n ?r1"
  have w: "obj_get cur2 n = Some ?w" using assms True by simp
  have ne: "?w \<noteq> []"
    using reconciled_star_nonempty [of cur1 n]
    by (auto simp: desiredVersion_def split: option.splits)
  show ?thesis
  proof (cases "?w = ''*''")
    case star: True
    then have "?r1 = ''*''" by (auto simp: desiredVersion_def split: if_splits option.splits)
    moreover have "reconciled cur2 n ''*'' = ''*''" using w star by (simp add: reconciled_def)
    ultimately show ?thesis using True by simp
  next
    case False
    then have "reconciled cur2 n ''*'' = ?w" using w ne by (simp add: reconciled_def truthy_def)
    moreover have "desiredVersion installed n ?w = ?w" using False by (simp add: desiredVersion_def)
    ultimately show ?thesis using True by simp
  qed
qed

lemma resolvedSection_map:
  "resolvedSection le installed (map (\<lambda>(n, u). (n, g n u)) ob)
     = sorted_obj le (map (\<lambda>(n, u). (n, desiredVersion installed n (g n u))) ob)"
  by (simp add: resolvedSection_def comp_def case_prod_unfold)

lemma resolved_reconciled_fixed:
  assumes "distinct (map fst ob)"
  shows "resolvedSection le installed
           (map (\<lambda>(n, u). (n, reconciled
              (resolvedSection le installed (map (\<lambda>(n, u). (n, reconciled cur1 n u)) ob)) n u)) ob)
         = resolvedSection le installed (map (\<lambda>(n, u). (n, reconciled cur1 n u)) ob)"
proof -
  let ?m1 = "map (\<lambda>(n, u). (n, desiredVersion installed n (reconciled cur1 n u))) ob"
  let ?cur2 = "resolvedSection le installed (map (\<lambda>(n, u). (n, reconciled cur1 n u)) ob)"
  have c2: "?cur2 = sorted_obj le ?m1" by (rule resolvedSection_map)
  have d1: "distinct (map fst ?m1)" using assms by (simp only: keys_map)
  have get: "obj_get ?cur2 n = Some (desiredVersion installed n (reconciled cur1 n u))"
    if "(n, u) \<in> set ob" for n u
  proof -
    have "obj_get ob n = Some u"
      unfolding obj_get_def using assms that by (rule map_of_is_SomeI)
    then have "obj_get ?m1 n = Some (desiredVersion installed n (reconciled cur1 n u))"
      by (simp add: obj_get_map)
    then show ?thesis unfolding c2 obj_get_sorted_obj [OF d1] .
  qed
  have "map (\<lambda>(n, u). (n, desiredVersion installed n (reconciled ?cur2 n u))) ob = ?m1"
  proof (rule map_cong [OF refl])
    fix x assume x: "x \<in> set ob"
    obtain n u where nu: "x = (n, u)" by (cases x)
    from get [of n u] x nu desiredVersion_fixed [of ?cur2 n installed cur1 u]
    show "(case x of (n, u) \<Rightarrow> (n, desiredVersion installed n (reconciled ?cur2 n u)))
            = (case x of (n, u) \<Rightarrow> (n, desiredVersion installed n (reconciled cur1 n u)))"
      by simp
  qed
  then have "sorted_obj le
               (map (\<lambda>(n, u). (n, desiredVersion installed n (reconciled ?cur2 n u))) ob)
             = sorted_obj le ?m1" by (rule arg_cong)
  then show ?thesis by (simp only: resolvedSection_map)
qed

lemma preSynthesize_again:
  assumes "preSynthesize mv pkgfile st = Inr (st1, logs)"
  shows "preSynthesize mv pkgfile st1 = Inr (st1, logs)"
proof -
  from assms obtain st' nd where
    r: "renderDependencies mv pkgfile st = Inr (st', nd, logs)" and
    st1: "st1 = st'\<lparr>renderedDeps := Some nd\<rparr>"
    by (auto simp: preSynthesize_def split: sum.splits)
  have "renderDependencies mv pkgfile st1 = Inr (st1, nd, logs)"
    unfolding st1 by (rule render_idem [OF r])
  then show ?thesis by (simp add: preSynthesize_def st1)
qed

lemma render_change_manifest:
  assumes "renderDependencies mv pkgfile st = Inr (st', nd, logs)"
  shows "\<exists>st'' nd' logs'. renderDependencies mv pkgfile' st = Inr (st'', nd', logs')
           \<and> deps st'' = deps st'"
proof -
  from assms obtain st1 nd0 bundled where
    pin: "pinPhase mv st = Inr st1" and
    fb: "fillBuckets (deps st1) (deps st1) (emptyDeps, []) = Inr (nd0, bundled)" and
    st': "st' = st1\<lparr>manifest_dependencies := dependencies (fst (reconcile pkgfile nd0)),
                        manifest_devDependencies := devDependencies (fst (reconcile pkgfile nd0)),
                        manifest_peerDependencies := peerDependencies (fst (reconcile pkgfile nd0)),
                        manifest_bundledDependencies := bundled\<rparr>"
    by (auto simp: render_alt split: sum.splits prod.splits)
  with pin fb show ?thesis by (simp add: render_alt)
qed

lemma wf_map_values: "wf_obj (map (\<lambda>(n, u). (n, g n u)) ob) = wf_obj ob"
  unfolding wf_obj_def keys_map ..

lemma rendered_wf:
  assumes "renderDependencies mv pkgfile st = Inr (st', nd, logs)"
  shows "wf_obj (dependencies nd)" "wf_obj (devDependencies nd)" "wf_obj (peerDependencies nd)"
  unfolding render_sections [OF assms] wf_map_values by (simp_all add: wf_fill wf_obj_Nil)

lemma rendered_manifest:
  assumes "renderDependencies mv pkgfile st = Inr (st', nd, logs)"
  shows "manifest_dependencies st' = dependencies nd"
    "manifest_devDependencies st' = devDependencies nd"
    "manifest_peerDependencies st' = peerDependencies nd"
proof -
  from render_Inr [OF assms] obtain reqs bundled where
    st': "st' = st\<lparr>deps := foldl upsert (deps st) (map pinnedDep reqs),
                     manifest_dependencies := dependencies nd,
                     manifest_devDependencies := devDependencies nd,
                     manifest_peerDependencies := peerDependencies nd,
                     manifest_bundledDependencies := bundled\<rparr>" by blast
  show "manifest_dependencies st' = dependencies nd"
    "manifest_devDependencies st' = devDependencies nd"
    "manifest_peerDependencies st' = peerDependencies nd"
    by (subst st', simp)+
qed

lemma render_fields:
  assumes "renderDependencies mv pkgfile st = Inr (st', nd, logs)"
  shows "npmTaskExecution st' = npmTaskExecution st" "projenCommand st' = projenCommand st"
    "scripts st' = scripts st" "tasks st' = tasks st"
proof -
  from render_Inr [OF assms] obtain reqs bundled where
    st': "st' = st\<lparr>deps := foldl upsert (deps st) (map pinnedDep reqs),
                     manifest_dependencies := dependencies nd,
                     manifest_devDependencies := devDependencies nd,
                     manifest_peerDependencies := peerDependencies nd,
                     manifest_bundledDependencies := bundled\<rparr>" by blast
  show "npmTaskExecution st' = npmTaskExecution st" "projenCommand st' = projenCommand st"
    "scripts st' = scripts st" "tasks st' = tasks st"
    by (subst st', simp)+
qed

lemma renderScripts_tasks_cong:
  "npmTaskExecution a = npmTaskExecution b \<Longrightarrow> projenCommand a = projenCommand b \<Longrightarrow>
   renderScripts_tasks a ts r = renderScripts_tasks b ts r"
proof (induction ts arbitrary: r)
  case Nil
  show ?case by simp
next
  case (Cons t ts)
  have "npmScriptForTask a t = npmScriptForTask b t"
    using Cons.prems by (simp add: npmScriptForTask_def)
  then show ?case using Cons.IH [OF Cons.prems] by (simp split: sum.splits)
qed

lemma renderScripts_cong:
  assumes "npmTaskExecution a = npmTaskExecution b" "projenCommand a = projenCommand b"
    "scripts a = scripts b" "tasks a = tasks b"
  shows "renderScripts a = renderScripts b"
  using assms(3,4) by (simp add: renderScripts_def renderScripts_tasks_cong [OF assms(1,2)])

lemma commands_cong:
  assumes "npmTaskExecution a = npmTaskExecution b" "projenCommand a = projenCommand b"
    "tasks a = tasks b"
  shows "map (npmScriptForTask a) (tasks a) = map (npmScriptForTask b) (tasks b)"
    and "map (runTaskCommand \<lparr>npmPackage = a, runScriptCommand = c\<rparr>) (tasks a)
           = map (runTaskCommand \<lparr>npmPackage = b, runScriptCommand = c\<rparr>) (tasks b)"
  using assms by (simp_all add: npmScriptForTask_def runTaskCommand_def)

lemma renderScripts_tasks_keys:
  "renderScripts_tasks st ts r = Inr sc \<Longrightarrow> fst ` set sc = fst ` set r \<union> task_name ` set ts"
proof (induction ts arbitrary: r)
  case Nil
  then show ?case by simp
next
  case (Cons t ts)
  from Cons.prems obtain c where c: "npmScriptForTask st t = Inr c"
    and rest: "renderScripts_tasks st ts (obj_set r (task_name t) c) = Inr sc"
    by (auto split: sum.splits)
  from Cons.IH [OF rest] show ?case by (simp add: keys_obj_set)
qed

lemma renderScripts_tasks_distinct:
  "renderScripts_tasks st ts r = Inr sc \<Longrightarrow> distinct (map fst r) \<Longrightarrow> distinct (map fst sc)"
proof (induction ts arbitrary: r)
  case Nil
  then show ?case by simp
next
  case (Cons t ts)
  from Cons.prems obtain c where c: "npmScriptForTask st t = Inr c"
    and rest: "renderScripts_tasks st ts (obj_set r (task_name t) c) = Inr sc"
    by (auto split: sum.splits)
  from Cons.IH [OF rest] Cons.prems(2) show ?case by (simp add: distinct_obj_set)
qed

lemma renderScripts_tasks_other:
  "renderScripts_tasks st ts r = Inr sc \<Longrightarrow> k \<notin> task_name ` set ts \<Longrightarrow>
   obj_get sc k = obj_get r k"
proof (induction ts arbitrary: r)
  case Nil
  then show ?case by simp
next
  case (Cons t ts)
  from Cons.prems obtain c where c: "npmScriptForTask st t = Inr c"
    and rest: "renderScripts_tasks st ts (obj_set r (task_name t) c) = Inr sc"
    by (auto split: sum.splits)
  from Cons.prems(2) have "k \<notin> task_name ` set ts" "k \<noteq> task_name t" by auto
  with Cons.IH [OF rest] show ?case by (simp add: obj_get_obj_set)
qed

lemma renderScripts_tasks_entry:
  "renderScripts_tasks st ts r = Inr sc \<Longrightarrow> distinct (map task_name ts) \<Longrightarrow> t \<in> set ts \<Longrightarrow>
   map_option Inr (obj_get sc (task_name t)) = Some (npmScriptForTask st t)"
proof (induction ts arbitrary: r)
  case Nil
  then show ?case by simp
next
  case (Cons x ts)
  from Cons.prems obtain c where c: "npmScriptForTask st x = Inr c"
    and rest: "renderScripts_tasks st ts (obj_set r (task_name x) c) = Inr sc"
    by (auto split: sum.splits)
  show ?case
  proof (cases "t = x")
    case True
    from Cons.prems(2) have "task_name x \<notin> task_name ` set ts" by simp
    from renderScripts_tasks_other [OF rest this] c True show ?thesis
      by (simp add: obj_get_obj_set)
  next
    case False
    with Cons.prems have "t \<in> set ts" "distinct (map task_name ts)" by auto
    from Cons.IH [OF rest this(2,1)] show ?thesis .
  qed
qed

lemma distinct_script_entries:
  "distinct (map fst (foldl (\<lambda>result (n, commands). obj_set result n (g commands)) acc xs))"
  if "distinct (map fst acc)"
  using that
proof (induction xs arbitrary: acc)
  case Nil
  then show ?case by simp
next
  case (Cons e xs)
  obtain n u where e: "e = (n, u)" by (cases e)
  show ?case using Cons.prems by (simp add: Cons.IH e distinct_obj_set)
qed

lemma keys_script_entries:
  "fst ` set (foldl (\<lambda>result (n, commands). obj_set result n (g commands)) acc xs)
     = fst ` set acc \<union> fst ` set xs"
proof (induction xs arbitrary: acc)
  case Nil
  then show ?case by simp
next
  case (Cons e xs)
  obtain n u where e: "e = (n, u)" by (cases e)
  show ?case by (simp add: Cons.IH e keys_obj_set)
qed

lemma renderScripts_Inr:
  assumes "renderScripts st = Inr sc"
  shows "distinct (map fst sc)"
    and "fst ` set sc = fst ` set (scripts st) \<union> task_name ` set (tasks st)"
    and "distinct (map task_name (tasks st)) \<Longrightarrow>
         map (\<lambda>t. map_option Inr (obj_get sc (task_name t))) (tasks st)
           = map (\<lambda>t. Some (npmScriptForTask st t)) (tasks st)"
proof -
  let ?r = "foldl (\<lambda>result (n, commands). obj_set result n
                (join '' && '' (if length commands > 0 then commands else [echo_na])))
              [] (scripts st)"
  from assms have t: "renderScripts_tasks st (tasks st) ?r = Inr sc"
    by (simp add: renderScripts_def)
  have "distinct (map fst ?r)" by (rule distinct_script_entries) simp
  with t show "distinct (map fst sc)" by (rule renderScripts_tasks_distinct)
  show "fst ` set sc = fst ` set (scripts st) \<union> task_name ` set (tasks st)"
    unfolding renderScripts_tasks_keys [OF t] by (simp add: keys_script_entries)
  show "map (\<lambda>t. map_option Inr (obj_get sc (task_name t))) (tasks st)
           = map (\<lambda>t. Some (npmScriptForTask st t)) (tasks st)"
    if "distinct (map task_name (tasks st))"
    by (rule map_cong [OF refl]) (rule renderScripts_tasks_entry [OF t that])
qed

lemma synth_Inr:
  assumes "synth le mv installed disk st = Inr (st1, pkg1, logs1)"
  shows "\<exists>st' nd l1 sc. renderDependencies mv disk st = Inr (st', nd, l1)
           \<and> preSynthesize mv disk st = Inr (st1, l1)
           \<and> st1 = st'\<lparr>renderedDeps := Some nd\<rparr>
           \<and> renderScripts st1 = Inr sc
           \<and> pkg1 = \<lparr>pkg_dependencies = Some (resolvedSection le installed (dependencies nd)),
                     pkg_devDependencies = Some (resolvedSection le installed (devDependencies nd)),
                     pkg_peerDependencies = Some (resolvedSection le installed (peerDependencies nd)),
                     pkg_scripts = Some sc\<rparr>"
proof -
  from assms obtain st' nd l1 where
    r: "renderDependencies mv disk st = Inr (st', nd, l1)" and
    st1: "st1 = st'\<lparr>renderedDeps := Some nd\<rparr>"
    by (auto simp: synth_def preSynthesize_def split: sum.splits prod.splits)
  have pre: "preSynthesize mv disk st = Inr (st1, l1)"
    by (simp add: preSynthesize_def r st1)
  from assms pre obtain sc where sc: "renderScripts st1 = Inr sc"
    by (auto simp: synth_def synthesize_def split: sum.splits)
  from assms pre sc obtain run lg1 dev lg2 peer lg3 where
    a: "resolveDeps le installed (Some (manifest_dependencies st1)) (dependencies nd) = Inr (run, lg1)" and
    b: "resolveDeps le installed (Some (manifest_devDependencies st1)) (devDependencies nd) = Inr (dev, lg2)" and
    c: "resolveDeps le installed (Some (manifest_peerDependencies st1)) (peerDependencies nd) = Inr (peer, lg3)" and
    p: "pkg1 = \<lparr>pkg_dependencies = Some run, pkg_devDependencies = Some dev,
                 pkg_peerDependencies = Some peer, pkg_scripts = Some sc\<rparr>"
    by (auto simp: synth_def synthesize_def postSynthesize_def resolveDepsAndWritePackageJson_def st1
        split: sum.splits prod.splits)
  note d = rendered_wf [OF r]
  show ?thesis
    using r pre st1 sc
    by (simp add: p resolveDeps_section [OF d(1) a] resolveDeps_section [OF d(2) b]
        resolveDeps_section [OF d(3) c])
qed

lemma synth_succeeds:
  assumes "renderDependencies mv disk st = Inr (st', nd, l1)"
    and "renderScripts (st'\<lparr>renderedDeps := Some nd\<rparr>) = Inr sc"
  shows "\<exists>logs. synth le mv installed disk st
           = Inr (st'\<lparr>renderedDeps := Some nd\<rparr>,
                  \<lparr>pkg_dependencies = Some (resolvedSection le installed (dependencies nd)),
                   pkg_devDependencies = Some (resolvedSection le installed (devDependencies nd)),
                   pkg_peerDependencies = Some (resolvedSection le installed (peerDependencies nd)),
                   pkg_scripts = Some sc\<rparr>,
                  logs)"
proof -
  let ?st1 = "st'\<lparr>renderedDeps := Some nd\<rparr>"
  have pre: "preSynthesize mv disk st = Inr (?st1, l1)"
    by (simp add: preSynthesize_def assms(1))
  obtain run lg1 where
    a: "resolveDeps le installed (Some (manifest_dependencies ?st1)) (dependencies nd) = Inr (run, lg1)"
    using resolveDeps_Some by blast
  obtain dev lg2 where
    b: "resolveDeps le installed (Some (manifest_devDependencies ?st1)) (devDependencies nd) = Inr (dev, lg2)"
    using resolveDeps_Some by blast
  obtain peer lg3 where
    c: "resolveDeps le installed (Some (manifest_peerDependencies ?st1)) (peerDependencies nd) = Inr (peer, lg3)"
    using resolveDeps_Some by blast
  note d = rendered_wf [OF assms(1)]
  have "synth le mv installed disk st
          = Inr (?st1, \<lparr>pkg_dependencies = Some run, pkg_devDependencies = Some dev,
                         pkg_peerDependencies = Some peer, pkg_scripts = Some sc\<rparr>,
                 l1 @ lg1 @ lg2 @ lg3)"
    using a b c assms(2)
    by (simp add: synth_def synthesize_def pre postSynthesize_def resolveDepsAndWritePackageJson_def)
  then show ?thesis
    unfolding resolveDeps_section [OF d(1) a] resolveDeps_section [OF d(2) b]
      resolveDeps_section [OF d(3) c] by blast
qed

lemma synth_fixed:
  assumes "preSynthesize mv disk st = Inr (st1, l)"
  shows "synth le mv installed disk st1 = synth le mv installed disk st"
  using assms preSynthesize_again [OF assms] by (simp add: synth_def)

lemma priorSection_Some:
  "priorSection pkg_dependencies (Some \<lparr>pkg_dependencies = Some a, pkg_devDependencies = Some b,
      pkg_peerDependencies = Some c, pkg_scripts = d\<rparr>) = a"
  "priorSection pkg_devDependencies (Some \<lparr>pkg_dependencies = Some a, pkg_devDependencies = Some b,
      pkg_peerDependencies = Some c, pkg_scripts = d\<rparr>) = b"
  "priorSection pkg_peerDependencies (Some \<lparr>pkg_dependencies = Some a, pkg_devDependencies = Some b,
      pkg_peerDependencies = Some c, pkg_scripts = d\<rparr>) = c"
  by (simp_all add: priorSection_def)

lemma synth_second_run:
  assumes "synth le mv installed disk st = Inr (st1, pkg1, logs1)"
  shows "\<exists>st2 logs2.
            synth le mv installed (Some pkg1) st1 = Inr (st2, pkg1, logs2)
          \<and> synth le mv installed (Some pkg1) st2 = Inr (st2, pkg1, logs2)
          \<and> deps st2 = deps st1
          \<and> npmTaskExecution st2 = npmTaskExecution st1
          \<and> projenCommand st2 = projenCommand st1
          \<and> scripts st2 = scripts st1
          \<and> tasks st2 = tasks st1"
proof -
  from synth_Inr [OF assms] obtain st' nd1 l1 sc where
    r: "renderDependencies mv disk st = Inr (st', nd1, l1)" and
    st1: "st1 = st'\<lparr>renderedDeps := Some nd1\<rparr>" and
    sc: "renderScripts st1 = Inr sc" and
    pkg1: "pkg1 = \<lparr>pkg_dependencies = Some (resolvedSection le installed (dependencies nd1)),
                     pkg_devDependencies = Some (resolvedSection le installed (devDependencies nd1)),
                     pkg_peerDependencies = Some (resolvedSection le installed (peerDependencies nd1)),
                     pkg_scripts = Some sc\<rparr>"
    by blast
  have idem: "renderDependencies mv disk st1 = Inr (st1, nd1, l1)"
    unfolding st1 by (rule render_idem [OF r])
  from render_change_manifest [OF idem, of "Some pkg1"] obtain st'' nd2 l2 where
    ch: "renderDependencies mv (Some pkg1) st1 = Inr (st'', nd2, l2)" and
    d: "deps st'' = deps st1"
    by blast
  note m = render_fields [OF ch]
  note s1 = render_sections [OF idem]
  note s2 = render_sections [OF ch]
  have e1: "resolvedSection le installed (dependencies nd2)
              = resolvedSection le installed (dependencies nd1)"
    unfolding s2(1) s1(1) d pkg1 priorSection_Some
    by (subst s1(1) [symmetric], unfold s1(1))
       (rule resolved_reconciled_fixed, simp add: distinct_fill)
  have e2: "resolvedSection le installed (devDependencies nd2)
              = resolvedSection le installed (devDependencies nd1)"
    unfolding s2(2) s1(2) d pkg1 priorSection_Some
    by (subst s1(2) [symmetric], unfold s1(2))
       (rule resolved_reconciled_fixed, simp add: distinct_fill)
  have e3: "resolvedSection le installed (peerDependencies nd2)
              = resolvedSection le installed (peerDependencies nd1)"
    unfolding s2(3) s1(3) d pkg1 priorSection_Some
    by (subst s1(3) [symmetric], unfold s1(3))
       (rule resolved_reconciled_fixed, simp add: distinct_fill)
  let ?st2 = "st''\<lparr>renderedDeps := Some nd2\<rparr>"
  have "renderScripts ?st2 = renderScripts st1"
    by (rule renderScripts_cong) (simp_all add: m)
  then have sc2: "renderScripts ?st2 = Inr sc" by (simp add: sc)
  from synth_succeeds [OF ch sc2, of le installed] obtain logs2 where
    "synth le mv installed (Some pkg1) st1
       = Inr (?st2,
              \<lparr>pkg_dependencies = Some (resolvedSection le installed (dependencies nd2)),
               pkg_devDependencies = Some (resolvedSection le installed (devDependencies nd2)),
               pkg_peerDependencies = Some (resolvedSection le installed (peerDependencies nd2)),
               pkg_scripts = Some sc\<rparr>,
              logs2)" by blast
  then have run2: "synth le mv installed (Some pkg1) st1 = Inr (?st2, pkg1, logs2)"
    by (simp only: e1 e2 e3 pkg1)
  have pre2: "preSynthesize mv (Some pkg1) st1 = Inr (?st2, l2)"
    by (simp add: preSynthesize_def ch)
  have run3: "synth le mv installed (Some pkg1) ?st2 = Inr (?st2, pkg1, logs2)"
    using synth_fixed [OF pre2, of le installed] run2 by simp
  show ?thesis
    using run2 run3 d m by (intro exI [of _ ?st2] exI [of _ logs2]) simp
qed

text \<open>
  C4 (as amended): when a synthesis has run, a second one in the same environment
  writes the same \<^verbatim>\<open>package.json\<close>, dependency sections and scripts, and leaves the
  ledger, the scripts and the task list as they are; the state it reaches is a fixed
  point, so that from the second run on the state, the rendered dependencies, the written
  file and the log are the same at every run. The scripts written are those rendered
  before the first run: their names are the script names and the task names, each once,
  and when the task names are distinct every task has its rendered command as its entry.
  With the \<^verbatim>\<open>package.json\<close> on disk unchanged, \<^verbatim>\<open>preSynthesize\<close> is idempotent from
  the first run. The first run keeps the entries of the ledger in their places and the
  keys distinct, it leaves the task list as it is, and the rendered commands of the
  tasks are the same before and after every run.
\<close>

theorem synth_idempotent:
  assumes "synth le mv installed disk st = Inr (st1, pkg1, logs1)"
  shows "(\<exists>st2 logs2.
            synth le mv installed (Some pkg1) st1 = Inr (st2, pkg1, logs2)
          \<and> synth le mv installed (Some pkg1) st2 = Inr (st2, pkg1, logs2)
          \<and> deps st2 = deps st1 \<and> tasks st2 = tasks st \<and> scripts st2 = scripts st
          \<and> renderScripts st2 = renderScripts st
          \<and> map (npmScriptForTask st2) (tasks st2) = map (npmScriptForTask st) (tasks st)
          \<and> map (runTaskCommand \<lparr>npmPackage = st2, runScriptCommand = c\<rparr>) (tasks st2)
              = map (runTaskCommand \<lparr>npmPackage = st, runScriptCommand = c\<rparr>) (tasks st))
       \<and> (\<exists>sc. pkg_scripts pkg1 = Some sc \<and> renderScripts st = Inr sc
              \<and> renderScripts st1 = Inr sc \<and> distinct (map fst sc)
              \<and> fst ` set sc = fst ` set (scripts st) \<union> task_name ` set (tasks st)
              \<and> (distinct (map task_name (tasks st)) \<longrightarrow>
                   map (\<lambda>t. map_option Inr (obj_get sc (task_name t))) (tasks st)
                     = map (\<lambda>t. Some (npmScriptForTask st t)) (tasks st)))
       \<and> (\<exists>l. preSynthesize mv disk st = Inr (st1, l)
              \<and> preSynthesize mv disk st1 = Inr (st1, l))
       \<and> take (length (deps st)) (map dep_key (deps st1)) = map dep_key (deps st)
       \<and> (distinct (map dep_key (deps st)) \<longrightarrow> distinct (map dep_key (deps st1)))
       \<and> tasks st1 = tasks st \<and> scripts st1 = scripts st
       \<and> map (npmScriptForTask st1) (tasks st1) = map (npmScriptForTask st) (tasks st)
       \<and> map (runTaskCommand \<lparr>npmPackage = st1, runScriptCommand = c\<rparr>) (tasks st1)
           = map (runTaskCommand \<lparr>npmPackage = st, runScriptCommand = c\<rparr>) (tasks st)"
proof -
  from synth_Inr [OF assms] obtain st' nd l sc where
    r: "renderDependencies mv disk st = Inr (st', nd, l)" and
    pre: "preSynthesize mv disk st = Inr (st1, l)" and
    st1: "st1 = st'\<lparr>renderedDeps := Some nd\<rparr>" and
    sc1: "renderScripts st1 = Inr sc" and
    pkg1: "pkg_scripts pkg1 = Some sc"
    by force
  note f = render_fields [OF r]
  have f1: "npmTaskExecution st1 = npmTaskExecution st" "projenCommand st1 = projenCommand st"
    "scripts st1 = scripts st" "tasks st1 = tasks st"
    by (simp_all add: st1 f)
  have rs1: "renderScripts st1 = renderScripts st" by (rule renderScripts_cong [OF f1])
  with sc1 have sc0: "renderScripts st = Inr sc" by simp
  note k = renderScripts_Inr [OF sc0]
  note a = preSynthesize_idempotent [OF pre]
  from synth_second_run [OF assms] obtain st2 logs2 where
    s: "synth le mv installed (Some pkg1) st1 = Inr (st2, pkg1, logs2)"
      "synth le mv installed (Some pkg1) st2 = Inr (st2, pkg1, logs2)"
      "deps st2 = deps st1"
    and f2': "npmTaskExecution st2 = npmTaskExecution st1" "projenCommand st2 = projenCommand st1"
      "scripts st2 = scripts st1" "tasks st2 = tasks st1"
    by blast
  have f2: "npmTaskExecution st2 = npmTaskExecution st" "projenCommand st2 = projenCommand st"
    "scripts st2 = scripts st" "tasks st2 = tasks st"
    by (simp_all add: f2' f1)
  have first: "\<exists>st2 logs2.
            synth le mv installed (Some pkg1) st1 = Inr (st2, pkg1, logs2)
          \<and> synth le mv installed (Some pkg1) st2 = Inr (st2, pkg1, logs2)
          \<and> deps st2 = deps st1 \<and> tasks st2 = tasks st \<and> scripts st2 = scripts st
          \<and> renderScripts st2 = renderScripts st
          \<and> map (npmScriptForTask st2) (tasks st2) = map (npmScriptForTask st) (tasks st)
          \<and> map (runTaskCommand \<lparr>npmPackage = st2, runScriptCommand = c\<rparr>) (tasks st2)
              = map (runTaskCommand \<lparr>npmPackage = st, runScriptCommand = c\<rparr>) (tasks st)"
    using s f2(3,4) renderScripts_cong [OF f2] commands_cong(1) [OF f2(1,2,4)]
      commands_cong(2) [OF f2(1,2,4), of c]
    by (intro exI [of _ st2] exI [of _ logs2]) simp
  have second: "\<exists>sc. pkg_scripts pkg1 = Some sc \<and> renderScripts st = Inr sc
              \<and> renderScripts st1 = Inr sc \<and> distinct (map fst sc)
              \<and> fst ` set sc = fst ` set (scripts st) \<union> task_name ` set (tasks st)
              \<and> (distinct (map task_name (tasks st)) \<longrightarrow>
                   map (\<lambda>t. map_option Inr (obj_get sc (task_name t))) (tasks st)
                     = map (\<lambda>t. Some (npmScriptForTask st t)) (tasks st))"
    using pkg1 sc0 sc1 k by (intro exI [of _ sc]) simp
  have third: "\<exists>l. preSynthesize mv disk st = Inr (st1, l)
              \<and> preSynthesize mv disk st1 = Inr (st1, l)"
    using pre a by blast
  from first second third a f1(3,4) commands_cong(1) [OF f1(1,2,4)]
    commands_cong(2) [OF f1(1,2,4), of c]
  show ?thesis by blast
qed

lemma leftpad_first_run:
  "synth (\<le>) example_minVersion leftpad_installed None
     (new_NpmPackage\<lparr>deps := [\<lparr>name = ''left-pad'', version = None, type = RUNTIME\<rparr>]\<rparr>)
   = Inr (new_NpmPackage\<lparr>deps := [\<lparr>name = ''left-pad'', version = None, type = RUNTIME\<rparr>],
            manifest_dependencies := [(''left-pad'', ''*'')],
            renderedDeps := Some \<lparr>dependencies = [(''left-pad'', ''*'')],
                                   devDependencies = [], peerDependencies = []\<rparr>\<rparr>,
          \<lparr>pkg_dependencies = Some [(''left-pad'', ''^1.3.0'')],
           pkg_devDependencies = Some [], pkg_peerDependencies = Some [],
           pkg_scripts = Some []\<rparr>,
          [Verbose ''left-pad: * => ^1.3.0''])"
  by (simp add: synth_def synthesize_def renderScripts_def preSynthesize_def
      renderDependencies_def new_NpmPackage_def
      versionOrStar_def Let_def postSynthesize_def resolveDepsAndWritePackageJson_def
      resolveDeps_def resolveDeps_step_def desiredVersion_def leftpad_installed_def
      sorted_obj_def sort_by_def obj_get_def truthy_def obj_set_eval)

lemma leftpad_second_run:
  "synth (\<le>) example_minVersion leftpad_installed
     (Some \<lparr>pkg_dependencies = Some [(''left-pad'', ''^1.3.0'')],
            pkg_devDependencies = Some [], pkg_peerDependencies = Some [],
            pkg_scripts = Some []\<rparr>)
     (new_NpmPackage\<lparr>deps := [\<lparr>name = ''left-pad'', version = None, type = RUNTIME\<rparr>],
            manifest_dependencies := [(''left-pad'', ''*'')],
            renderedDeps := Some \<lparr>dependencies = [(''left-pad'', ''*'')],
                                   devDependencies = [], peerDependencies = []\<rparr>\<rparr>)
   = Inr (new_NpmPackage\<lparr>deps := [\<lparr>name = ''left-pad'', version = None, type = RUNTIME\<rparr>],
            manifest_dependencies := [(''left-pad'', ''^1.3.0'')],
            renderedDeps := Some \<lparr>dependencies = [(''left-pad'', ''^1.3.0'')],
                                   devDependencies = [], peerDependencies = []\<rparr>\<rparr>,
          \<lparr>pkg_dependencies = Some [(''left-pad'', ''^1.3.0'')],
           pkg_devDependencies = Some [], pkg_peerDependencies = Some [],
           pkg_scripts = Some []\<rparr>,
          [])"
  by (simp add: synth_def synthesize_def renderScripts_def preSynthesize_def
      renderDependencies_def new_NpmPackage_def
      versionOrStar_def Let_def postSynthesize_def resolveDepsAndWritePackageJson_def
      resolveDeps_def resolveDeps_step_def desiredVersion_def leftpad_installed_def
      sorted_obj_def sort_by_def obj_get_def truthy_def readDeps_def readDeps_step_def
      obj_set_eval)

text \<open>
  C4 as stated fails for the rendered dependencies of the first two runs: with
  \<^verbatim>\<open>addDeps("left-pad")\<close>, no \<^verbatim>\<open>package.json\<close> and \<^verbatim>\<open>left-pad\<close> installed at 1.3.0,
  the first run renders \<open>left-pad: *\<close> and writes \<open>left-pad: ^1.3.0\<close>; the second run
  finds that file and renders \<open>left-pad: ^1.3.0\<close>.
\<close>

theorem rendered_snapshot_counterexample:
  "synth (\<le>) example_minVersion leftpad_installed None
     (new_NpmPackage\<lparr>deps := [\<lparr>name = ''left-pad'', version = None, type = RUNTIME\<rparr>]\<rparr>)
   = Inr (new_NpmPackage\<lparr>deps := [\<lparr>name = ''left-pad'', version = None, type = RUNTIME\<rparr>],
            manifest_dependencies := [(''left-pad'', ''*'')],
            renderedDeps := Some \<lparr>dependencies = [(''left-pad'', ''*'')],
                                   devDependencies = [], peerDependencies = []\<rparr>\<rparr>,
          \<lparr>pkg_dependencies = Some [(''left-pad'', ''^1.3.0'')],
           pkg_devDependencies = Some [], pkg_peerDependencies = Some [],
           pkg_scripts = Some []\<rparr>,
          [Verbose ''left-pad: * => ^1.3.0''])
   \<and> synth (\<le>) example_minVersion leftpad_installed
     (Some \<lparr>pkg_dependencies = Some [(''left-pad'', ''^1.3.0'')],
            pkg_devDependencies = Some [], pkg_peerDependencies = Some [],
            pkg_scripts = Some []\<rparr>)
     (new_NpmPackage\<lparr>deps := [\<lparr>name = ''left-pad'', version = None, type = RUNTIME\<rparr>],
            manifest_dependencies := [(''left-pad'', ''*'')],
            renderedDeps := Some \<lparr>dependencies = [(''left-pad'', ''*'')],
                                   devDependencies = [], peerDependencies = []\<rparr>\<rparr>)
   = Inr (new_NpmPackage\<lparr>deps := [\<lparr>name = ''left-pad'', version = None, type = RUNTIME\<rparr>],
            manifest_dependencies := [(''left-pad'', ''^1.3.0'')],
            renderedDeps := Some \<lparr>dependencies = [(''left-pad'', ''^1.3.0'')],
                                   devDependencies = [], peerDependencies = []\<rparr>\<rparr>,
          \<lparr>pkg_dependencies = Some [(''left-pad'', ''^1.3.0'')],
           pkg_devDependencies = Some [], pkg_peerDependencies = Some [],
           pkg_scripts = Some []\<rparr>,
          [])
   \<and> \<lparr>dependencies = [(''left-pad'', ''*'')], devDependencies = [], peerDependencies = []\<rparr>
       \<noteq> \<lparr>dependencies = [(''left-pad'', ''^1.3.0'')], devDependencies = [],
           peerDependencies = []\<rparr>"
  using leftpad_first_run leftpad_second_run by simp

lemma not_le_testlib_react: "\<not> (''test-lib'' :: string) \<le> ''react''"
  by code_simp

lemma scenario_first_run:
  "synth (\<le>) example_minVersion leftpad_installed None
     (new_NpmPackage\<lparr>deps :=
        [\<lparr>name = ''left-pad'', version = None, type = RUNTIME\<rparr>,
         \<lparr>name = ''test-lib'', version = Some ''^3'', type = BUILD\<rparr>,
         \<lparr>name = ''react'', version = Some ''^16'', type = PEER\<rparr>],
       scripts := [(''start'', [''node .''])],
       tasks := [\<lparr>task_name = ''build'', toShellCommand = Inr ''tsc''\<rparr>]\<rparr>)
   = Inr (new_NpmPackage\<lparr>deps :=
        [\<lparr>name = ''left-pad'', version = None, type = RUNTIME\<rparr>,
         \<lparr>name = ''test-lib'', version = Some ''^3'', type = BUILD\<rparr>,
         \<lparr>name = ''react'', version = Some ''^16'', type = PEER\<rparr>,
         \<lparr>name = ''react'', version = Some ''16.0.0'', type = BUILD\<rparr>],
       manifest_dependencies := [(''left-pad'', ''*'')],
       manifest_devDependencies := [(''test-lib'', ''^3''), (''react'', ''16.0.0'')],
       manifest_peerDependencies := [(''react'', ''^16'')],
       manifest_bundledDependencies := [],
       renderedDeps := Some \<lparr>dependencies = [(''left-pad'', ''*'')],
          devDependencies = [(''test-lib'', ''^3''), (''react'', ''16.0.0'')],
          peerDependencies = [(''react'', ''^16'')]\<rparr>,
       scripts := [(''start'', [''node .''])],
       tasks := [\<lparr>task_name = ''build'', toShellCommand = Inr ''tsc''\<rparr>]\<rparr>,
      \<lparr>pkg_dependencies = Some [(''left-pad'', ''^1.3.0'')],
       pkg_devDependencies = Some [(''react'', ''16.0.0''), (''test-lib'', ''^3'')],
       pkg_peerDependencies = Some [(''react'', ''^16'')],
       pkg_scripts = Some [(''start'', ''node .''), (''build'', ''npx projen build'')]\<rparr>,
      [Verbose ''left-pad: * => ^1.3.0''])"
  using not_le_testlib_react
  by (simp add: synth_def synthesize_def renderScripts_def npmScriptForTask_def
      preSynthesize_def renderDependencies_def new_NpmPackage_def pinnedRequest_def
      example_minVersion_def addDevDeps_def addDependency_def parseDependency_def
      versionOrStar_def Let_def postSynthesize_def resolveDepsAndWritePackageJson_def
      resolveDeps_def resolveDeps_step_def desiredVersion_def leftpad_installed_def
      sorted_obj_def sort_by_def obj_get_def truthy_def obj_set_eval)

theorem synth_idempotent_witness:
  "\<exists>st1 pkg1 logs1 st2 logs2.
     synth (\<le>) example_minVersion leftpad_installed None
       (new_NpmPackage\<lparr>deps :=
          [\<lparr>name = ''left-pad'', version = None, type = RUNTIME\<rparr>,
           \<lparr>name = ''test-lib'', version = Some ''^3'', type = BUILD\<rparr>,
           \<lparr>name = ''react'', version = Some ''^16'', type = PEER\<rparr>],
         scripts := [(''start'', [''node .''])],
         tasks := [\<lparr>task_name = ''build'', toShellCommand = Inr ''tsc''\<rparr>]\<rparr>)
     = Inr (st1, pkg1, logs1)
   \<and> synth (\<le>) example_minVersion leftpad_installed (Some pkg1) st1 = Inr (st2, pkg1, logs2)
   \<and> synth (\<le>) example_minVersion leftpad_installed (Some pkg1) st2 = Inr (st2, pkg1, logs2)
   \<and> deps st1 =
        [\<lparr>name = ''left-pad'', version = None, type = RUNTIME\<rparr>,
         \<lparr>name = ''test-lib'', version = Some ''^3'', type = BUILD\<rparr>,
         \<lparr>name = ''react'', version = Some ''^16'', type = PEER\<rparr>,
         \<lparr>name = ''react'', version = Some ''16.0.0'', type = BUILD\<rparr>]
   \<and> deps st2 = deps st1
   \<and> tasks st2 = [\<lparr>task_name = ''build'', toShellCommand = Inr ''tsc''\<rparr>]
   \<and> pkg_dependencies pkg1 = Some [(''left-pad'', ''^1.3.0'')]
   \<and> pkg_devDependencies pkg1 = Some [(''react'', ''16.0.0''), (''test-lib'', ''^3'')]
   \<and> pkg_peerDependencies pkg1 = Some [(''react'', ''^16'')]
   \<and> pkg_scripts pkg1 = Some [(''start'', ''node .''), (''build'', ''npx projen build'')]"
proof -
  let ?st = "new_NpmPackage\<lparr>deps :=
          [\<lparr>name = ''left-pad'', version = None, type = RUNTIME\<rparr>,
           \<lparr>name = ''test-lib'', version = Some ''^3'', type = BUILD\<rparr>,
           \<lparr>name = ''react'', version = Some ''^16'', type = PEER\<rparr>],
         scripts := [(''start'', [''node .''])],
         tasks := [\<lparr>task_name = ''build'', toShellCommand = Inr ''tsc''\<rparr>]\<rparr>"
  let ?st1 = "new_NpmPackage\<lparr>deps :=
        [\<lparr>name = ''left-pad'', version = None, type = RUNTIME\<rparr>,
         \<lparr>name = ''test-lib'', version = Some ''^3'', type = BUILD\<rparr>,
         \<lparr>name = ''react'', version = Some ''^16'', type = PEER\<rparr>,
         \<lparr>name = ''react'', version = Some ''16.0.0'', type = BUILD\<rparr>],
       manifest_dependencies := [(''left-pad'', ''*'')],
       manifest_devDependencies := [(''test-lib'', ''^3''), (''react'', ''16.0.0'')],
       manifest_peerDependencies := [(''react'', ''^16'')],
       manifest_bundledDependencies := [],
       renderedDeps := Some \<lparr>dependencies = [(''left-pad'', ''*'')],
          devDependencies = [(''test-lib'', ''^3''), (''react'', ''16.0.0'')],
          peerDependencies = [(''react'', ''^16'')]\<rparr>,
       scripts := [(''start'', [''node .''])],
       tasks := [\<lparr>task_name = ''build'', toShellCommand = Inr ''tsc''\<rparr>]\<rparr>"
  let ?pkg1 = "\<lparr>pkg_dependencies = Some [(''left-pad'', ''^1.3.0'')],
       pkg_devDependencies = Some [(''react'', ''16.0.0''), (''test-lib'', ''^3'')],
       pkg_peerDependencies = Some [(''react'', ''^16'')],
       pkg_scripts = Some [(''start'', ''node .''), (''build'', ''npx projen build'')]\<rparr>"
  from synth_idempotent [OF scenario_first_run, THEN conjunct1] obtain st2 logs2 where
    "synth (\<le>) example_minVersion leftpad_installed (Some ?pkg1) ?st1 = Inr (st2, ?pkg1, logs2)"
    "synth (\<le>) example_minVersion leftpad_installed (Some ?pkg1) st2 = Inr (st2, ?pkg1, logs2)"
    "deps st2 = deps ?st1" "tasks st2 = tasks ?st"
    by blast
  then show ?thesis
    using scenario_first_run
    by (intro exI [of _ ?st1] exI [of _ ?pkg1] exI [of _ "[Verbose ''left-pad: * => ^1.3.0'']"]
        exI [of _ st2] exI [of _ logs2]) simp
qed

end
